theory Spec2Isabelle
  imports Complex_Main "HOL-Library.AList"
begin

section \<open>Camera variants: messages, node state and the aggregate\<close>

text \<open>
  The two camera programs (motion detection and HOG people detection) share the classes
  \<^verbatim>\<open>Msg\<close> and \<^verbatim>\<open>Node\<close>; their \<^verbatim>\<open>process_messages\<close>, \<^verbatim>\<open>local_decision\<close>, \<^verbatim>\<open>receive\<close> and
  \<^verbatim>\<open>gossip\<close> methods are textually identical, and they differ only in how a frame is turned
  into \<^verbatim>\<open>(present, count)\<close>.

  A frame is opaque here. What OpenCV computes from it is a parameter of the model: the
  number of rectangles the HOG detector returns for a frame, and the number of pixels that
  differ by more than 30 between two gray frames.
\<close>

type_synonym frame = nat

text \<open>An aggregate entry is the tuple \<^verbatim>\<open>(present, count, valid)\<close>.\<close>

type_synonym entry = "bool \<times> int \<times> bool"

text \<open>
  \<^verbatim>\<open>self.agg[tick]\<close> is a Python dict from originator to entry. It is kept as an association
  list in insertion order, which is the order \<^verbatim>\<open>.values()\<close> iterates in.
\<close>

type_synonym snapshot = "(int \<times> entry) list"

text \<open>
  \<^verbatim>\<open>Msg(kind, payload)\<close> with the payload keys \<^verbatim>\<open>tick\<close>, \<^verbatim>\<open>from\<close>, \<^verbatim>\<open>present\<close>, \<^verbatim>\<open>count\<close>,
  \<^verbatim>\<open>valid\<close> (the key \<^verbatim>\<open>from\<close> is the field \<open>from_id\<close>).
\<close>

record msg =
  kind :: string
  tick :: int
  from_id :: int
  present :: bool
  count :: int
  valid :: bool

text \<open>
  The fields of \<^verbatim>\<open>Node\<close>. The capture device is the sequence of results its \<^verbatim>\<open>read()\<close> calls
  give, \<open>cap\<close>, with the number of reads made so far, \<open>cap_pos\<close>. \<open>peers\<close> holds positions
  in the list of all nodes. \<open>prev_frame_gray\<close> and \<open>motion_accumulator\<close> are used by the
  motion variant only. The display fields (\<^verbatim>\<open>show\<close>, the HOG descriptor object) have no
  effect on the state or on the messages and are left out.
\<close>

record node =
  node_id :: int
  cap :: "nat \<Rightarrow> bool \<times> frame option"
  cap_pos :: nat
  ok :: bool
  peers :: "nat list"
  inbox :: "msg list"
  prev_frame_gray :: "frame option"
  motion_accumulator :: int
  seen :: "(int \<times> int) set"
  agg :: "int \<rightharpoonup> snapshot"

text \<open>
  \<^verbatim>\<open>Node.__init__\<close>; \<open>opened\<close> is the value of \<^verbatim>\<open>cap is not None and cap.isOpened()\<close>.
\<close>

definition Node :: "int \<Rightarrow> (nat \<Rightarrow> bool \<times> frame option) \<Rightarrow> bool \<Rightarrow> node" where
  "Node i c opened =
     \<lparr>node_id = i, cap = c, cap_pos = 0, ok = opened, peers = [], inbox = [],
      prev_frame_gray = None, motion_accumulator = 0, seen = {}, agg = Map.empty\<rparr>"

definition connect :: "node \<Rightarrow> nat list \<Rightarrow> node" where
  "connect n ps = n\<lparr>peers := ps\<rparr>"

definition receive :: "node \<Rightarrow> msg \<Rightarrow> node" where
  "receive n m = n\<lparr>inbox := inbox n @ [m]\<rparr>"

text \<open>\<^verbatim>\<open>self.agg[t][f] = e\<close> on a \<^verbatim>\<open>defaultdict(dict)\<close>, and the lookup of one entry.\<close>

definition agg_put :: "(int \<rightharpoonup> snapshot) \<Rightarrow> int \<Rightarrow> int \<Rightarrow> entry \<Rightarrow> (int \<rightharpoonup> snapshot)" where
  "agg_put a t f e =
     a(t \<mapsto> AList.update f e (case a t of None \<Rightarrow> [] | Some d \<Rightarrow> d))"

definition agg_get :: "(int \<rightharpoonup> snapshot) \<Rightarrow> int \<Rightarrow> int \<Rightarrow> entry option" where
  "agg_get a t f = (case a t of None \<Rightarrow> None | Some d \<Rightarrow> map_of d f)"

text \<open>\<^verbatim>\<open>Msg('OBS', {...})\<close>, the only message the camera programs construct.\<close>

definition obs :: "int \<Rightarrow> int \<Rightarrow> bool \<Rightarrow> int \<Rightarrow> bool \<Rightarrow> msg" where
  "obs t f p c v =
     \<lparr>kind = ''OBS'', tick = t, from_id = f, present = p, count = c, valid = v\<rparr>"

text \<open>The dedup key \<^verbatim>\<open>(tick, from)\<close> of a message and the entry it carries.\<close>

definition key_of :: "msg \<Rightarrow> int \<times> int" where
  "key_of m = (tick m, from_id m)"

definition entry_of :: "msg \<Rightarrow> entry" where
  "entry_of m = (present m, count m, valid m)"

subsection \<open>Measuring\<close>

text \<open>\<^verbatim>\<open>detect_people\<close> of the HOG variant: \<^verbatim>\<open>count = len(rects); present = count > 0\<close>.\<close>

definition detect_people :: "(frame \<Rightarrow> nat) \<Rightarrow> frame \<Rightarrow> bool \<times> int" where
  "detect_people hog fr = (let c = int (hog fr) in (c > 0, c))"

text \<open>\<^verbatim>\<open>detect_motion\<close> of the motion variant, with its threshold of 5000 pixels.\<close>

definition detect_motion :: "(frame \<Rightarrow> frame \<Rightarrow> nat) \<Rightarrow> node \<Rightarrow> frame \<Rightarrow> node \<times> bool \<times> int" where
  "detect_motion mpx n gray =
     (case prev_frame_gray n of
        None \<Rightarrow> (n\<lparr>prev_frame_gray := Some gray\<rparr>, False, 0)
      | Some prev \<Rightarrow>
          (let motion_pixels = int (mpx gray prev);
               acc = motion_accumulator n + motion_pixels;
               n1 = n\<lparr>prev_frame_gray := Some gray, motion_accumulator := acc\<rparr>
           in if acc \<ge> 5000 then (n1\<lparr>motion_accumulator := 0\<rparr>, True, acc)
              else (n1, False, 0)))"

text \<open>
  The second half of \<^verbatim>\<open>measure_and_broadcast\<close>, the same lines in both variants: the key
  \<^verbatim>\<open>(tick, self.node_id)\<close> goes through the \<^verbatim>\<open>seen\<close> test, and only a new key is recorded and
  gossiped. The list returned holds the messages handed to \<^verbatim>\<open>self.gossip\<close>.
\<close>

definition announce :: "node \<Rightarrow> int \<Rightarrow> bool \<Rightarrow> int \<Rightarrow> bool \<Rightarrow> node \<times> msg list" where
  "announce n t p c v =
     (let key = (t, node_id n) in
      if key \<notin> seen n then
        (n\<lparr>seen := insert key (seen n), agg := agg_put (agg n) t (node_id n) (p, c, v)\<rparr>,
         [obs t (node_id n) p c v])
      else (n, []))"

text \<open>
  The first half of \<^verbatim>\<open>measure_and_broadcast\<close> (grab a frame): the node after the read, and
  \<^verbatim>\<open>(present, count, valid)\<close>. A node whose \<^verbatim>\<open>ok\<close> flag is off does not read. This is the HOG
  variant.
\<close>

definition grab_frame :: "(frame \<Rightarrow> nat) \<Rightarrow> node \<Rightarrow> node \<times> bool \<times> int \<times> bool" where
  "grab_frame hog n =
     (if ok n then
        (let n1 = n\<lparr>cap_pos := Suc (cap_pos n)\<rparr> in
         case cap n (cap_pos n) of
           (True, Some fr) \<Rightarrow> (let (p, c) = detect_people hog fr in (n1, p, c, True))
         | _ \<Rightarrow> (n1\<lparr>ok := False\<rparr>, False, 0, False))
      else (n, False, 0, False))"

text \<open>The same half in the motion variant, where detection updates the node.\<close>

definition grab_frame_motion ::
    "(frame \<Rightarrow> frame \<Rightarrow> nat) \<Rightarrow> node \<Rightarrow> node \<times> bool \<times> int \<times> bool" where
  "grab_frame_motion mpx n =
     (if ok n then
        (let n1 = n\<lparr>cap_pos := Suc (cap_pos n)\<rparr> in
         case cap n (cap_pos n) of
           (True, Some fr) \<Rightarrow> (let (n2, p, c) = detect_motion mpx n1 fr in (n2, p, c, True))
         | _ \<Rightarrow> (n1\<lparr>ok := False\<rparr>, False, 0, False))
      else (n, False, 0, False))"

text \<open>\<^verbatim>\<open>measure_and_broadcast\<close> of the HOG variant and of the motion variant.\<close>

definition measure_and_broadcast :: "(frame \<Rightarrow> nat) \<Rightarrow> node \<Rightarrow> int \<Rightarrow> node \<times> msg list" where
  "measure_and_broadcast hog n t =
     (let (n1, p, c, v) = grab_frame hog n in announce n1 t p c v)"

definition measure_and_broadcast_motion ::
    "(frame \<Rightarrow> frame \<Rightarrow> nat) \<Rightarrow> node \<Rightarrow> int \<Rightarrow> node \<times> msg list" where
  "measure_and_broadcast_motion mpx n t =
     (let (n1, p, c, v) = grab_frame_motion mpx n in announce n1 t p c v)"

subsection \<open>Draining the inbox\<close>

text \<open>
  The \<^verbatim>\<open>while not self.inbox.empty()\<close> loop of \<^verbatim>\<open>process_messages\<close>, over the queued messages
  in arrival order, with the outbox built so far. Nothing is put into the node's own inbox
  while it drains, since \<^verbatim>\<open>gossip\<close> runs after the loop and skips the node itself.
\<close>

fun drain :: "msg list \<Rightarrow> node \<Rightarrow> msg list \<Rightarrow> node \<times> msg list" where
  "drain [] n outbox = (n, outbox)"
| "drain (m # ms) n outbox =
     (if kind m = ''OBS'' then
        (let t = tick m; f = from_id m; key = (t, f) in
         if key \<in> seen n then drain ms n outbox
         else drain ms
                (n\<lparr>seen := insert key (seen n),
                   agg := agg_put (agg n) t f (present m, count m, valid m)\<rparr>)
                (outbox @ [m]))
      else drain ms n outbox)"

text \<open>
  \<^verbatim>\<open>process_messages\<close>: the node after the loop, and the outbox whose messages are then
  gossiped one by one.
\<close>

definition process_messages :: "node \<Rightarrow> node \<times> msg list" where
  "process_messages n = drain (inbox n) (n\<lparr>inbox := []\<rparr>) []"

subsection \<open>The local decision\<close>

text \<open>
  The body of \<^verbatim>\<open>local_decision\<close> below the test \<^verbatim>\<open>tick not in self.agg\<close>, on the dict
  \<^verbatim>\<open>self.agg[tick]\<close>. The result is the tuple \<^verbatim>\<open>(majority, ratio, contributors, total_count)\<close>.
  Python's \<^verbatim>\<open>yes / contributors\<close> is the float nearest to the quotient; the model keeps the
  quotient itself.
\<close>

definition decide :: "snapshot \<Rightarrow> int \<Rightarrow> (bool \<times> real \<times> int \<times> int) option" where
  "decide d min_quorum =
     (let entries = filter (\<lambda>(p, c, v). v) (map snd d);
          contributors = int (length entries)
      in if contributors < min_quorum \<or> contributors = 0 then None
         else
           (let yes = (\<Sum>(p, c, v) \<leftarrow> filter (\<lambda>(p, c, v). p) entries. (1::int));
                total_count = (\<Sum>(p, c, v) \<leftarrow> entries. c);
                ratio = real_of_int yes / real_of_int contributors
            in Some (yes \<ge> contributors - yes, ratio, contributors, total_count)))"

definition local_decision :: "node \<Rightarrow> int \<Rightarrow> int \<Rightarrow> (bool \<times> real \<times> int \<times> int) option" where
  "local_decision n t min_quorum =
     (case agg n t of None \<Rightarrow> None | Some d \<Rightarrow> decide d min_quorum)"


subsection \<open>Runs of one node, and of a network\<close>

text \<open>
  The two assignments of \<^verbatim>\<open>process_messages\<close> that record a new key:
  \<^verbatim>\<open>self.seen.add(key)\<close> and \<^verbatim>\<open>self.agg[t][f] = (...)\<close>.
\<close>

definition accept :: "node \<Rightarrow> msg \<Rightarrow> node" where
  "accept n m = n\<lparr>seen := insert (key_of m) (seen n),
                    agg := agg_put (agg n) (tick m) (from_id m) (entry_of m)\<rparr>"

text \<open>The two camera programs, each with the OpenCV function it depends on.\<close>

datatype camera = HogCam "frame \<Rightarrow> nat" | MotionCam "frame \<Rightarrow> frame \<Rightarrow> nat"

fun measure_cam :: "camera \<Rightarrow> node \<Rightarrow> int \<Rightarrow> node \<times> msg list" where
  "measure_cam (HogCam hog) n t = measure_and_broadcast hog n t"
| "measure_cam (MotionCam mpx) n t = measure_and_broadcast_motion mpx n t"

definition grab :: "camera \<Rightarrow> node \<Rightarrow> node \<times> bool \<times> int \<times> bool" where
  "grab cam n =
     (case cam of HogCam hog \<Rightarrow> grab_frame hog n | MotionCam mpx \<Rightarrow> grab_frame_motion mpx n)"

text \<open>
  What can happen to one node: a peer calls \<^verbatim>\<open>receive\<close>, or the driver loop of \<^verbatim>\<open>main\<close> calls
  \<^verbatim>\<open>measure_and_broadcast(tick)\<close> or \<^verbatim>\<open>process_messages()\<close>. A step returns the messages the
  node hands to \<^verbatim>\<open>gossip\<close>. A run keeps each of them with the event that sent it, so a
  node's own observations (sent by a \<open>Measure\<close> event) can be told from the ones it relays
  (sent by a \<open>Process\<close> event). Any order of events and any arriving messages are allowed,
  which covers every peer graph and every schedule.
\<close>

datatype event = Receive msg | Measure int | Process

fun step :: "camera \<Rightarrow> node \<Rightarrow> event \<Rightarrow> node \<times> msg list" where
  "step cam n (Receive m) = (receive n m, [])"
| "step cam n (Measure t) = measure_cam cam n t"
| "step cam n Process = process_messages n"

fun run :: "camera \<Rightarrow> node \<Rightarrow> event list \<Rightarrow> node \<times> (event \<times> msg) list" where
  "run cam n [] = (n, [])"
| "run cam n (e # es) =
     (let (n1, out) = step cam n e; (n2, tr) = run cam n1 es
      in (n2, map (Pair e) out @ tr))"

definition broadcasts :: "(event \<times> msg) list \<Rightarrow> msg list" where
  "broadcasts tr = map snd tr"

fun is_measure :: "event \<Rightarrow> bool" where
  "is_measure (Measure t) = True"
| "is_measure e = False"

definition own_observations :: "(event \<times> msg) list \<Rightarrow> msg list" where
  "own_observations tr = map snd (filter (\<lambda>(e, m). is_measure e) tr)"

text \<open>
  The network is the list \<^verbatim>\<open>nodes\<close> of \<^verbatim>\<open>main\<close>. \<^verbatim>\<open>gossip\<close> of the node at position \<open>i\<close> puts the
  message into the inbox of every peer whose \<^verbatim>\<open>node_id\<close> differs from its own. In the source
  \<^verbatim>\<open>peers\<close> holds references to \<^verbatim>\<open>Node\<close> objects; here it holds their positions in the list, so
  every position in \<open>peers\<close> is one of an existing node. \<open>net_measure\<close> and \<open>net_process\<close>
  are one call of \<^verbatim>\<open>n.measure_and_broadcast(tick)\<close> and of \<^verbatim>\<open>n.process_messages()\<close> in the driver
  loop, with the deliveries that the call's \<^verbatim>\<open>gossip\<close> makes.
\<close>

definition gossip :: "nat \<Rightarrow> msg \<Rightarrow> node list \<Rightarrow> node list" where
  "gossip i m net =
     fold (\<lambda>p nt. if node_id (nt ! p) \<noteq> node_id (nt ! i) then nt[p := receive (nt ! p) m] else nt)
       (peers (net ! i)) net"

definition net_measure :: "camera \<Rightarrow> nat \<Rightarrow> int \<Rightarrow> node list \<Rightarrow> node list" where
  "net_measure cam i t net =
     (let (n1, out) = measure_cam cam (net ! i) t in fold (gossip i) out (net[i := n1]))"

definition net_process :: "nat \<Rightarrow> node list \<Rightarrow> node list" where
  "net_process i net =
     (let (n1, out) = process_messages (net ! i) in fold (gossip i) out (net[i := n1]))"

subsection \<open>The vocabulary of the specification\<close>

text \<open>
  \<^verbatim>\<open>snapshot(epoch)\<close>: the node's view of one tick, empty when the tick has no dict yet. The
  contributors are the valid entries, \<open>present_count\<close> counts the valid entries that report
  presence, and \<open>total_magnitude\<close> adds the counts of the valid entries. They are written
  over the dict's items, independently of how \<^verbatim>\<open>local_decision\<close> computes.
\<close>

definition snapshot_of :: "node \<Rightarrow> int \<Rightarrow> snapshot" where
  "snapshot_of n t = (case agg n t of None \<Rightarrow> [] | Some d \<Rightarrow> d)"


definition contributors_of :: "snapshot \<Rightarrow> int" where
  "contributors_of d = int (length (filter (\<lambda>(f, p, c, v). v) d))"

definition present_count :: "snapshot \<Rightarrow> int" where
  "present_count d = int (length (filter (\<lambda>(f, p, c, v). v \<and> p) d))"

definition total_magnitude :: "snapshot \<Rightarrow> int" where
  "total_magnitude d = (\<Sum>(f, p, c, v) \<leftarrow> filter (\<lambda>(f, p, c, v). v) d. c)"

text \<open>
  The measurement source fails to produce a reading: the node's \<^verbatim>\<open>ok\<close> flag is already off,
  or the next \<^verbatim>\<open>cap.read()\<close> returns a false flag or no frame.
\<close>

definition read_fails :: "node \<Rightarrow> bool" where
  "read_fails n =
     (if ok n then (case cap n (cap_pos n) of (True, Some fr) \<Rightarrow> False | _ \<Rightarrow> True) else True)"


text \<open>No dict of the aggregate lists an originator twice.\<close>

definition one_entry_per_key :: "node \<Rightarrow> bool" where
  "one_entry_per_key n = (\<forall>t d. agg n t = Some d \<longrightarrow> distinct (map fst d))"

subsection \<open>Example data\<close>

definition no_camera :: "nat \<Rightarrow> bool \<times> frame option" where
  "no_camera k = (False, None)"

definition steady_camera :: "nat \<Rightarrow> bool \<times> frame option" where
  "steady_camera k = (True, Some 0)"

text \<open>A camera that delivers two frames and then fails once; later reads would succeed.\<close>

definition flaky_camera :: "nat \<Rightarrow> bool \<times> frame option" where
  "flaky_camera k = (if k = 2 then (False, None) else (True, Some k))"

definition one_person :: camera where
  "one_person = HogCam (\<lambda>fr. 1)"

text \<open>Two fully connected nodes, as \<^verbatim>\<open>main\<close> builds them for \<^verbatim>\<open>--cams 0 1\<close>.\<close>

definition two_nodes :: "node list" where
  "two_nodes =
     [connect (Node 0 steady_camera True) [0, 1], connect (Node 1 steady_camera True) [0, 1]]"

definition after_measuring :: "node list" where
  "after_measuring = net_measure one_person 1 0 (net_measure one_person 0 0 two_nodes)"

text \<open>Node 0 of five: its own observation and those of nodes 1 to 4, three present.\<close>

definition five_events :: "event list" where
  "five_events =
     [Measure 0, Receive (obs 0 1 True 2 True), Receive (obs 0 2 False 0 True),
      Receive (obs 0 3 True 4 True), Receive (obs 0 4 False 0 True), Process]"

definition five_node :: node where
  "five_node = fst (run one_person (Node 0 steady_camera True) five_events)"

text \<open>A node that has drained one present, one absent and one invalid observation.\<close>

definition tie_node :: node where
  "tie_node =
     fst (drain [obs 0 1 True 3 True, obs 0 2 False 0 True, obs 0 3 True 9 False]
            (Node 0 no_camera False) [])"

text \<open>A node whose only entries are invalid.\<close>

definition blind_node :: node where
  "blind_node =
     fst (drain [obs 0 1 False 0 False, obs 0 2 False 0 False] (Node 0 no_camera False) [])"


text \<open>A node without a working camera that has drained one valid observation.\<close>

definition broken_events :: "event list" where
  "broken_events = [Receive (obs 0 1 True 3 True), Process]"

definition broken_node :: node where
  "broken_node = fst (run one_person (Node 0 no_camera False) broken_events)"

text \<open>A node with the flaky camera after two good reads; its third read fails.\<close>

definition flaky_node :: node where
  "flaky_node = fst (run one_person (Node 0 flaky_camera True) [Measure 0, Measure 1])"

text \<open>What happens to the node after its failed read.\<close>

definition later_events :: "event list" where
  "later_events = [Measure 3, Receive (obs 3 1 True 2 True), Process, Measure 4]"

text \<open>
  Two fully connected nodes; the camera of node 0 could not be opened.
\<close>

definition broken_pair :: "node list" where
  "broken_pair =
     [connect (Node 0 no_camera False) [0, 1], connect (Node 1 steady_camera True) [0, 1]]"

section \<open>Keyword search variant: queries and results\<close>

text \<open>
  The first program of \<^verbatim>\<open>test.py\<close>. A \<^verbatim>\<open>Message\<close> is a \<^verbatim>\<open>QUERY\<close> with \<^verbatim>\<open>query_id\<close> and \<^verbatim>\<open>term\<close>, or
  a \<^verbatim>\<open>RESULT\<close> with \<^verbatim>\<open>query_id\<close>, \<^verbatim>\<open>from\<close>, \<^verbatim>\<open>has\<close> and \<^verbatim>\<open>count\<close>; the program constructs no other
  kind.
\<close>

datatype message = QUERY string string | RESULT string int int int

text \<open>The dict that \<^verbatim>\<open>self.aggregates\<close> holds for a query, and the one its factory makes.\<close>

record aggregate =
  nodes_total :: "int set"
  nodes_hit :: "int set"
  hit_count :: int
  contributors :: "int set"

definition new_aggregate :: aggregate where
  "new_aggregate = \<lparr>nodes_total = {}, nodes_hit = {}, hit_count = 0, contributors = {}\<rparr>"

text \<open>
  The fields of the search \<^verbatim>\<open>Node\<close>; \<open>q_node_id\<close> and \<open>q_inbox\<close> are its \<^verbatim>\<open>node_id\<close> and
  \<^verbatim>\<open>inbox\<close>.
\<close>

record search_node =
  q_node_id :: int
  q_inbox :: "message list"
  seen_queries :: "string set"
  rebroadcasted_results :: "(string \<times> int) set"
  docs :: "string list"
  faulty :: bool
  aggregates :: "string \<rightharpoonup> aggregate"

definition search_Node :: "int \<Rightarrow> bool \<Rightarrow> search_node" where
  "search_Node i f =
     \<lparr>q_node_id = i, q_inbox = [], seen_queries = {}, rebroadcasted_results = {}, docs = [],
      faulty = f, aggregates = Map.empty\<rparr>"

definition search_receive :: "search_node \<Rightarrow> message \<Rightarrow> search_node" where
  "search_receive n m = n\<lparr>q_inbox := q_inbox n @ [m]\<rparr>"

text \<open>\<^verbatim>\<open>self.aggregates[query_id]\<close> on the \<^verbatim>\<open>defaultdict\<close>.\<close>

definition aggregate_of :: "search_node \<Rightarrow> string \<Rightarrow> aggregate" where
  "aggregate_of n q = (case aggregates n q of None \<Rightarrow> new_aggregate | Some a \<Rightarrow> a)"

definition local_keyword_stats :: "search_node \<Rightarrow> string \<Rightarrow> int \<times> int" where
  "local_keyword_stats n term =
     (let c = int (length (filter (\<lambda>w. w = term) (docs n)));
          c = (if faulty n then max 0 (c + 3) else c);
          has = (if c > 0 then 1 else 0)
      in (has, c))"

text \<open>
  The lines that both handlers run to count a contributor: it joins \<^verbatim>\<open>contributors\<close> and
  \<^verbatim>\<open>nodes_total\<close>, and when \<^verbatim>\<open>has\<close> is truthy it joins \<^verbatim>\<open>nodes_hit\<close> and its count is added.
\<close>

definition tally :: "aggregate \<Rightarrow> int \<Rightarrow> int \<Rightarrow> int \<Rightarrow> aggregate" where
  "tally a f has c =
     (let a1 = a\<lparr>contributors := insert f (contributors a),
                 nodes_total := insert f (nodes_total a)\<rparr>
      in if has \<noteq> 0 then a1\<lparr>nodes_hit := insert f (nodes_hit a1), hit_count := hit_count a1 + c\<rparr>
         else a1)"

text \<open>\<^verbatim>\<open>handle_query\<close>, with the messages it gossips: its own result, then the query.\<close>

definition handle_query :: "search_node \<Rightarrow> string \<Rightarrow> string \<Rightarrow> search_node \<times> message list" where
  "handle_query n q term =
     (if q \<in> seen_queries n then (n, [])
      else
        (let n1 = n\<lparr>seen_queries := insert q (seen_queries n)\<rparr>;
             (has, c) = local_keyword_stats n1 term;
             n2 = n1\<lparr>aggregates :=
                       (aggregates n1)(q \<mapsto> tally (aggregate_of n1 q) (q_node_id n1) has c)\<rparr>
         in (n2, [RESULT q (q_node_id n2) has c, QUERY q term])))"

text \<open>
  \<^verbatim>\<open>handle_result\<close>. Reading \<^verbatim>\<open>self.aggregates[query_id]\<close> creates the dict of a query not met
  before, also on the path that returns early.
\<close>

definition handle_result ::
    "search_node \<Rightarrow> string \<Rightarrow> int \<Rightarrow> int \<Rightarrow> int \<Rightarrow> search_node \<times> message list" where
  "handle_result n q f has c =
     (let agg = aggregate_of n q; n0 = n\<lparr>aggregates := (aggregates n)(q \<mapsto> agg)\<rparr> in
      if f \<in> contributors agg then (n0, [])
      else
        (let n1 = n0\<lparr>aggregates := (aggregates n0)(q \<mapsto> tally agg f has c)\<rparr>;
             key = (q, f)
         in if key \<notin> rebroadcasted_results n1
            then (n1\<lparr>rebroadcasted_results := insert key (rebroadcasted_results n1)\<rparr>,
                  [RESULT q f has c])
            else (n1, [])))"

text \<open>The dispatch on \<^verbatim>\<open>m.kind\<close> in \<^verbatim>\<open>process_messages\<close>.\<close>

fun handle :: "search_node \<Rightarrow> message \<Rightarrow> search_node \<times> message list" where
  "handle n (QUERY q term) = handle_query n q term"
| "handle n (RESULT q f has c) = handle_result n q f has c"

text \<open>
  The loop of \<^verbatim>\<open>process_messages\<close>. Each gossiped message is kept with the message whose
  handling sent it: a query is forwarded, and a node's own result is sent, while a \<^verbatim>\<open>QUERY\<close>
  is handled; a result is relayed while a \<^verbatim>\<open>RESULT\<close> is handled.
\<close>

fun handle_all ::
    "message list \<Rightarrow> search_node \<Rightarrow> search_node \<times> (message \<times> message) list" where
  "handle_all [] n = (n, [])"
| "handle_all (m # ms) n =
     (let (n1, out) = handle n m; (n2, tr) = handle_all ms n1
      in (n2, map (Pair m) out @ tr))"

definition search_process_messages ::
    "search_node \<Rightarrow> search_node \<times> (message \<times> message) list" where
  "search_process_messages n = handle_all (q_inbox n) (n\<lparr>q_inbox := []\<rparr>)"

text \<open>Runs of one search node: a peer delivers a message, or the driver drains the inbox.\<close>

datatype search_event = Arrive message | Drain

fun search_step ::
    "search_node \<Rightarrow> search_event \<Rightarrow> search_node \<times> (message \<times> message) list" where
  "search_step n (Arrive m) = (search_receive n m, [])"
| "search_step n Drain = search_process_messages n"

fun search_run ::
    "search_node \<Rightarrow> search_event list \<Rightarrow> search_node \<times> (message \<times> message) list" where
  "search_run n [] = (n, [])"
| "search_run n (e # es) =
     (let (n1, tr1) = search_step n e; (n2, tr2) = search_run n1 es in (n2, tr1 @ tr2))"

text \<open>The query ids forwarded in a trace, and the (query, contributor) pairs relayed.\<close>

fun forwarded_query :: "message \<times> message \<Rightarrow> string option" where
  "forwarded_query (m, QUERY q term) = Some q"
| "forwarded_query (m, RESULT q f has c) = None"

fun relayed_result :: "message \<times> message \<Rightarrow> (string \<times> int) option" where
  "relayed_result (RESULT q' f' has' c', RESULT q f has c) = Some (q, f)"
| "relayed_result (m, m') = None"

definition query_forwards :: "(message \<times> message) list \<Rightarrow> string list" where
  "query_forwards tr = List.map_filter forwarded_query tr"

definition result_relays :: "(message \<times> message) list \<Rightarrow> (string \<times> int) list" where
  "result_relays tr = List.map_filter relayed_result tr"

text \<open>
  Node 2 of a mesh, holding the word twice. The query reaches it three times, the result
  of node 1 twice and the result of node 3 twice, in two batches.
\<close>

definition search_example :: search_node where
  "search_example = (search_Node 2 False)\<lparr>docs := [''gossip'', ''raft'', ''gossip'']\<rparr>"

definition search_events :: "search_event list" where
  "search_events =
     [Arrive (QUERY ''q1'' ''gossip''), Arrive (RESULT ''q1'' 1 1 4),
      Arrive (QUERY ''q1'' ''gossip''), Arrive (RESULT ''q1'' 1 1 4), Drain,
      Arrive (RESULT ''q1'' 3 0 0), Arrive (QUERY ''q1'' ''gossip''),
      Arrive (RESULT ''q1'' 3 0 0), Drain]"

section \<open>Numeric variant: parity votes\<close>

text \<open>
  The \<^verbatim>\<open>Node\<close> of \<^verbatim>\<open>simple_version.py\<close>. A message is the pair \<^verbatim>\<open>(number, vote)\<close>; it names no
  originator. \<^verbatim>\<open>known_numbers\<close> maps a number to the list of votes collected for it.
  \<open>s_node_id\<close> and \<open>s_inbox\<close> are the fields \<^verbatim>\<open>node_id\<close> and \<^verbatim>\<open>inbox\<close>.
\<close>

record simple_node =
  s_node_id :: int
  s_inbox :: "(int \<times> int) list"
  known_numbers :: "int \<rightharpoonup> int list"

definition simple_Node :: "int \<Rightarrow> simple_node" where
  "simple_Node i = \<lparr>s_node_id = i, s_inbox = [], known_numbers = Map.empty\<rparr>"

definition simple_receive :: "simple_node \<Rightarrow> int \<times> int \<Rightarrow> simple_node" where
  "simple_receive n m = n\<lparr>s_inbox := s_inbox n @ [m]\<rparr>"

text \<open>
  One vote joins the list of its number, which is created when missing: the body of the
  loop of \<^verbatim>\<open>process_messages\<close>, and the \<^verbatim>\<open>setdefault(...).append(vote)\<close> of \<^verbatim>\<open>vote\<close>.
\<close>

definition add_vote :: "(int \<rightharpoonup> int list) \<Rightarrow> int \<Rightarrow> int \<Rightarrow> (int \<rightharpoonup> int list)" where
  "add_vote kn number v = kn(number \<mapsto> (case kn number of None \<Rightarrow> [] | Some vs \<Rightarrow> vs) @ [v])"

fun simple_drain :: "(int \<times> int) list \<Rightarrow> (int \<rightharpoonup> int list) \<Rightarrow> (int \<rightharpoonup> int list)" where
  "simple_drain [] kn = kn"
| "simple_drain ((number, v) # ms) kn = simple_drain ms (add_vote kn number v)"

text \<open>\<^verbatim>\<open>process_messages\<close> of this variant calls \<^verbatim>\<open>gossip\<close> nowhere, so it returns the node only.\<close>

definition simple_process_messages :: "simple_node \<Rightarrow> simple_node" where
  "simple_process_messages n =
     n\<lparr>s_inbox := [], known_numbers := simple_drain (s_inbox n) (known_numbers n)\<rparr>"

text \<open>The vote every node casts for a number: 1 for an even number, 0 for an odd one.\<close>

definition parity_vote :: "int \<Rightarrow> int" where
  "parity_vote number = (if number mod 2 = 0 then 1 else 0)"

text \<open>\<^verbatim>\<open>vote\<close>, with the message it gossips.\<close>

definition simple_vote :: "simple_node \<Rightarrow> int \<Rightarrow> simple_node \<times> (int \<times> int) list" where
  "simple_vote n number =
     (let v = parity_vote number
      in (n\<lparr>known_numbers := add_vote (known_numbers n) number v\<rparr>, [(number, v)]))"

definition check_consensus :: "simple_node \<Rightarrow> int \<Rightarrow> int \<Rightarrow> string option" where
  "check_consensus n number threshold =
     (case known_numbers n number of
        None \<Rightarrow> None
      | Some votes \<Rightarrow>
          if int (length votes) \<ge> threshold then
            (let majority = (if count_list votes 1 > count_list votes 0 then 1 else (0::int))
             in Some (if majority = 1 then ''even'' else ''odd''))
          else None)"

text \<open>
  Every message of this program is built by \<^verbatim>\<open>vote\<close>, so it carries the parity vote of its
  number, and every list of votes is a nonempty list of copies of that one vote.
\<close>

definition parity_messages :: "(int \<times> int) list \<Rightarrow> bool" where
  "parity_messages ms = list_all (\<lambda>(number, v). v = parity_vote number) ms"

definition parity_votes :: "simple_node \<Rightarrow> bool" where
  "parity_votes n =
     (\<forall>number vs. known_numbers n number = Some vs \<longrightarrow>
        vs \<noteq> [] \<and> list_all (\<lambda>v. v = parity_vote number) vs)"

text \<open>Node 0 of three has voted on 42; the equal votes of nodes 1 and 2 arrive.\<close>

definition voted_42 :: simple_node where
  "voted_42 = fst (simple_vote (simple_Node 0) 42)"

text \<open>
  A node that has drained one vote of each kind for the number 4. Peers that run \<^verbatim>\<open>vote\<close>
  never send the second message; \<^verbatim>\<open>receive\<close> and \<^verbatim>\<open>process_messages\<close> take it like any other.
\<close>

definition tied_votes :: simple_node where
  "tied_votes =
     simple_process_messages (simple_receive (simple_receive (simple_Node 0) (4, 1)) (4, 0))"

section \<open>Temperature variant: readings\<close>

text \<open>
  The \<^verbatim>\<open>Node\<close> of \<^verbatim>\<open>temperature.py\<close>. A message is the pair \<^verbatim>\<open>(reading_id, value)\<close>: it names no
  originator and has no validity flag. \<^verbatim>\<open>known_measurements\<close> maps a reading id to the list
  of values collected for it. \<open>t_node_id\<close>, \<open>t_peers\<close>, \<open>t_inbox\<close> and \<open>t_faulty\<close> are the
  fields \<^verbatim>\<open>node_id\<close>, \<^verbatim>\<open>peers\<close>, \<^verbatim>\<open>inbox\<close> and \<^verbatim>\<open>faulty\<close>; as in the camera programs, \<open>t_peers\<close>
  holds the positions of the peers in the list of nodes.
\<close>

record temp_node =
  t_node_id :: int
  t_peers :: "nat list"
  t_inbox :: "(string \<times> int) list"
  known_measurements :: "string \<rightharpoonup> int list"
  t_faulty :: bool

definition temp_Node :: "int \<Rightarrow> nat list \<Rightarrow> bool \<Rightarrow> temp_node" where
  "temp_Node i ps f =
     \<lparr>t_node_id = i, t_peers = ps, t_inbox = [], known_measurements = Map.empty, t_faulty = f\<rparr>"

definition temp_receive :: "temp_node \<Rightarrow> string \<times> int \<Rightarrow> temp_node" where
  "temp_receive n m = n\<lparr>t_inbox := t_inbox n @ [m]\<rparr>"

text \<open>
  One value joins the list of its reading id, which is created when missing: the body of
  the loop of \<^verbatim>\<open>process_messages\<close>, and the \<^verbatim>\<open>setdefault(...).append(...)\<close> of \<^verbatim>\<open>measure\<close>.
\<close>

definition add_reading ::
    "(string \<rightharpoonup> int list) \<Rightarrow> string \<Rightarrow> int \<Rightarrow> (string \<rightharpoonup> int list)" where
  "add_reading km r v = km(r \<mapsto> (case km r of None \<Rightarrow> [] | Some vs \<Rightarrow> vs) @ [v])"

fun temp_drain ::
    "(string \<times> int) list \<Rightarrow> (string \<rightharpoonup> int list) \<Rightarrow> (string \<rightharpoonup> int list)" where
  "temp_drain [] km = km"
| "temp_drain ((reading_id, v) # ms) km = temp_drain ms (add_reading km reading_id v)"

text \<open>\<^verbatim>\<open>process_messages\<close> of this variant calls \<^verbatim>\<open>gossip\<close> nowhere.\<close>

definition temp_process_messages :: "temp_node \<Rightarrow> temp_node" where
  "temp_process_messages n =
     n\<lparr>t_inbox := [], known_measurements := temp_drain (t_inbox n) (known_measurements n)\<rparr>"

text \<open>
  \<^verbatim>\<open>measure\<close>, with the message it gossips. \<open>noise\<close> is the value \<^verbatim>\<open>random.randint(-3, 3)\<close>
  returns; a faulty node does not draw it.
\<close>

definition temp_measure ::
    "temp_node \<Rightarrow> string \<Rightarrow> int \<Rightarrow> int \<Rightarrow> temp_node \<times> (string \<times> int) list" where
  "temp_measure n reading_id true_temp noise =
     (let noisy_temp = (if t_faulty n then true_temp + 20 else true_temp + noise)
      in (n\<lparr>known_measurements := add_reading (known_measurements n) reading_id noisy_temp\<rparr>,
          [(reading_id, noisy_temp)]))"




subsection \<open>The network of the temperature variant\<close>

text \<open>
  \<^verbatim>\<open>gossip\<close>, and one call of \<^verbatim>\<open>node.measure(reading_id, true_temp)\<close> and of
  \<^verbatim>\<open>node.process_messages()\<close> by the node at position \<open>i\<close> of the list \<^verbatim>\<open>nodes\<close>.
\<close>

definition temp_gossip :: "nat \<Rightarrow> string \<times> int \<Rightarrow> temp_node list \<Rightarrow> temp_node list" where
  "temp_gossip i m net =
     fold (\<lambda>p nt. if t_node_id (nt ! p) \<noteq> t_node_id (nt ! i)
                   then nt[p := temp_receive (nt ! p) m] else nt)
       (t_peers (net ! i)) net"

definition temp_net_measure ::
    "nat \<Rightarrow> string \<Rightarrow> int \<Rightarrow> int \<Rightarrow> temp_node list \<Rightarrow> temp_node list" where
  "temp_net_measure i reading_id true_temp noise net =
     (let (n1, out) = temp_measure (net ! i) reading_id true_temp noise
      in fold (temp_gossip i) out (net[i := n1]))"

definition temp_net_process :: "nat \<Rightarrow> temp_node list \<Rightarrow> temp_node list" where
  "temp_net_process i net = net[i := temp_process_messages (net ! i)]"

text \<open>
  \<^verbatim>\<open>simulate\<close> up to the consensus check, for \<open>k\<close> nodes where the source has 20: every
  seventh node is faulty and all nodes are peers of each other; each node measures
  \<^verbatim>\<open>"temp_001"\<close> at a true temperature of 28, then come three rounds in which every node
  drains its inbox. \<open>noise i\<close> is the value \<^verbatim>\<open>random.randint(-3, 3)\<close> returns to node \<open>i\<close>.
\<close>

definition temp_cluster :: "nat \<Rightarrow> temp_node list" where
  "temp_cluster k = map (\<lambda>i. temp_Node (int i) [0..<k] (i mod 7 = 0)) [0..<k]"

definition temp_simulate :: "nat \<Rightarrow> (nat \<Rightarrow> int) \<Rightarrow> temp_node list" where
  "temp_simulate k noise =
     (let nodes = temp_cluster k;
          measured = fold (\<lambda>i net. temp_net_measure i ''temp_001'' 28 (noise i) net) [0..<k] nodes;
          round = (\<lambda>net. fold temp_net_process [0..<k] net)
      in round (round (round measured)))"

text \<open>
  The value node \<open>p\<close> of \<^verbatim>\<open>simulate\<close> measures: \<^verbatim>\<open>true_temp + 20\<close> when it is faulty, else
  \<^verbatim>\<open>true_temp\<close> plus its noise.
\<close>

definition reading_at :: "(nat \<Rightarrow> int) \<Rightarrow> nat \<Rightarrow> int" where
  "reading_at noise p = (if p mod 7 = 0 then 28 + 20 else 28 + noise p)"



section \<open>Lemmas: the local decision\<close>

lemma valid_entries_length:
  "int (length (filter (\<lambda>(p, c, v). v) (map snd d))) = contributors_of d"
  unfolding contributors_of_def
  by (induction d) auto

lemma yes_sum:
  "(\<Sum>(p, c, v) \<leftarrow> filter (\<lambda>(p, c, v). p) (filter (\<lambda>(p, c, v). v) (map snd d)). (1::int)) = present_count d"
  unfolding present_count_def
  by (induction d) auto

lemma total_sum:
  "(\<Sum>(p, c, v) \<leftarrow> filter (\<lambda>(p, c, v). v) (map snd d). c) = total_magnitude d"
  unfolding total_magnitude_def
  by (induction d) auto

lemma decide_eq:
  "decide d q =
     (if contributors_of d < q \<or> contributors_of d = 0 then None
      else Some (present_count d \<ge> contributors_of d - present_count d,
                 real_of_int (present_count d) / real_of_int (contributors_of d),
                 contributors_of d, total_magnitude d))"
  unfolding decide_def Let_def valid_entries_length yes_sum total_sum by simp

lemma contributors_of_Nil: "contributors_of [] = 0"
  by (simp add: contributors_of_def)

lemma local_decision_eq: "local_decision n t q = decide (snapshot_of n t) q"
  by (simp add: local_decision_def snapshot_of_def decide_eq contributors_of_Nil split: option.splits)


lemma decide_mono: "decide d k = None \<Longrightarrow> decide d (k + 1) = None"
  by (auto simp add: decide_eq split: if_splits)

lemma decide_indep: "decide d k1 = Some r1 \<Longrightarrow> decide d k2 = Some r2 \<Longrightarrow> r1 = r2"
  by (simp add: decide_eq split: if_splits)

section \<open>Lemmas: draining the inbox\<close>

lemma agg_get_put:
  "agg_get (agg_put a t f e) t' f' = (if t' = t \<and> f' = f then Some e else agg_get a t' f')"
  by (auto simp: agg_get_def agg_put_def update_conv' split: option.splits)

lemma drain_outbox: "snd (drain ms n ob) = ob @ snd (drain ms n [])"
proof (induction ms arbitrary: n ob)
  case Nil
  then show ?case by simp
next
  case (Cons m ms)
  show ?case
    using Cons.IH[of _ "ob @ [m]"] Cons.IH[of _ "[m]"] Cons.IH[of n ob]
    by (simp add: Let_def)
qed

lemma drain_state: "fst (drain ms n ob) = fst (drain ms n ob')"
  by (induction ms arbitrary: n ob ob') (simp_all add: Let_def)

lemma drain_append:
  "drain (ms1 @ ms2) n ob = drain ms2 (fst (drain ms1 n ob)) (snd (drain ms1 n ob))"
  by (induction ms1 arbitrary: n ob) (simp_all add: Let_def)

lemma seen_drain:
  "seen (fst (drain ms n ob)) = seen n \<union> key_of ` {m \<in> set ms. kind m = ''OBS''}"
  by (induction ms arbitrary: n ob) (auto simp: Let_def key_of_def)

lemma drain_dropped:
  "\<forall>m \<in> set ms. kind m = ''OBS'' \<longrightarrow> key_of m \<in> seen n \<Longrightarrow> drain ms n ob = (n, ob)"
  by (induction ms arbitrary: n ob) (auto simp: Let_def key_of_def)

lemma drain_again:
  assumes "m \<in> set ms"
  shows "drain (ms @ [m]) n ob = drain ms n ob"
proof -
  have "kind m = ''OBS'' \<longrightarrow> key_of m \<in> seen (fst (drain ms n ob))"
    using assms by (auto simp: seen_drain)
  then have "drain [m] (fst (drain ms n ob)) (snd (drain ms n ob)) = drain ms n ob"
    using drain_dropped[of "[m]" "fst (drain ms n ob)" "snd (drain ms n ob)"] by simp
  then show ?thesis by (simp only: drain_append)
qed

lemma agg_drain_seen:
  "(t, f) \<in> seen n \<Longrightarrow> agg_get (agg (fst (drain ms n ob))) t f = agg_get (agg n) t f"
  by (induction ms arbitrary: n ob) (auto simp: Let_def agg_get_put)

lemma drain_frame:
  "node_id (fst (drain ms n ob)) = node_id n"
  "ok (fst (drain ms n ob)) = ok n"
  "cap (fst (drain ms n ob)) = cap n"
  "cap_pos (fst (drain ms n ob)) = cap_pos n"
  "peers (fst (drain ms n ob)) = peers n"
  "inbox (fst (drain ms n ob)) = inbox n"
  "prev_frame_gray (fst (drain ms n ob)) = prev_frame_gray n"
  "motion_accumulator (fst (drain ms n ob)) = motion_accumulator n"
  by (induction ms arbitrary: n ob) (simp_all add: Let_def)

lemma drain_accept:
  "kind m = ''OBS'' \<Longrightarrow> key_of m \<notin> seen n \<Longrightarrow>
     drain (m # ms) n ob = drain ms (accept n m) (ob @ [m])"
  by (simp add: Let_def key_of_def accept_def entry_of_def)

lemma drain_drop:
  "\<not> (kind m = ''OBS'' \<and> key_of m \<notin> seen n) \<Longrightarrow> drain (m # ms) n ob = drain ms n ob"
  by (auto simp: Let_def key_of_def)

lemma seen_accept: "seen (accept n m) = insert (key_of m) (seen n)"
  by (simp add: accept_def)

lemma agg_accept:
  "agg_get (agg (accept n m)) t f =
     (if (t, f) = key_of m then Some (entry_of m) else agg_get (agg n) t f)"
  by (simp add: accept_def agg_get_put key_of_def)

declare drain.simps(2) [simp del]

lemma outbox_count:
  "length (filter (\<lambda>m. key_of m = k) (snd (drain ms n []))) =
     (if k \<notin> seen n \<and> (\<exists>m \<in> set ms. kind m = ''OBS'' \<and> key_of m = k) then 1 else 0)"
proof (induction ms arbitrary: n)
  case Nil
  then show ?case by simp
next
  case (Cons m ms)
  show ?case
  proof (cases "kind m = ''OBS'' \<and> key_of m \<notin> seen n")
    case True
    have "drain (m # ms) n [] = drain ms (accept n m) ([] @ [m])"
      using True by (intro drain_accept) auto
    then have out: "snd (drain (m # ms) n []) = m # snd (drain ms (accept n m) [])"
      using drain_outbox[of ms "accept n m" "[m]"] by simp
    show ?thesis
    proof (cases "key_of m = k")
      case same: True
      have "length (filter (\<lambda>m. key_of m = k) (snd (drain ms (accept n m) []))) = 0"
        using Cons.IH[of "accept n m"] same by (simp add: seen_accept)
      then show ?thesis using out same True by auto
    next
      case other: False
      have "length (filter (\<lambda>m. key_of m = k) (snd (drain ms (accept n m) []))) =
              (if k \<notin> seen n \<and> (\<exists>m \<in> set ms. kind m = ''OBS'' \<and> key_of m = k) then 1 else 0)"
        using Cons.IH[of "accept n m"] other by (simp add: seen_accept)
      then show ?thesis using out other by auto
    qed
  next
    case False
    then have "drain (m # ms) n [] = drain ms n []"
      by (rule drain_drop)
    then show ?thesis
      using Cons.IH[of n] False by auto
  qed
qed

lemma outbox_first:
  assumes "k \<notin> seen n" "find (\<lambda>m. kind m = ''OBS'' \<and> key_of m = k) ms = Some m"
  shows "m \<in> set (snd (drain ms n ob)) \<and>
         agg_get (agg (fst (drain ms n ob))) (fst k) (snd k) = Some (entry_of m)"
  using assms
proof (induction ms arbitrary: n ob)
  case Nil
  then show ?case by simp
next
  case (Cons a ms)
  show ?case
  proof (cases "kind a = ''OBS'' \<and> key_of a = k")
    case True
    then have am: "a = m" using Cons.prems(2) by simp
    have "kind m = ''OBS''" "key_of m \<notin> seen n"
      using True Cons.prems(1) am by auto
    then have d: "drain (a # ms) n ob = drain ms (accept n m) (ob @ [m])"
      unfolding am by (rule drain_accept)
    have "m \<in> set (snd (drain ms (accept n m) (ob @ [m])))"
      using drain_outbox[of ms "accept n m" "ob @ [m]"] by simp
    moreover have "agg_get (agg (fst (drain ms (accept n m) (ob @ [m])))) (fst k) (snd k) = Some (entry_of m)"
    proof -
      have "(fst k, snd k) \<in> seen (accept n m)"
        using True am by (simp add: seen_accept)
      from agg_drain_seen[OF this] show ?thesis
        using True am by (simp add: agg_accept)
    qed
    ultimately show ?thesis by (simp only: d) 
  next
    case False
    then have f: "find (\<lambda>m. kind m = ''OBS'' \<and> key_of m = k) ms = Some m"
      using Cons.prems(2) by auto
    show ?thesis
    proof (cases "kind a = ''OBS'' \<and> key_of a \<notin> seen n")
      case True
      have d: "drain (a # ms) n ob = drain ms (accept n a) (ob @ [a])"
        using True by (intro drain_accept) auto
      have "k \<notin> seen (accept n a)" using False True Cons.prems(1) by (auto simp: seen_accept)
      from Cons.IH[OF this f, of "ob @ [a]"] show ?thesis by (simp only: d)
    next
      case False
      then have d: "drain (a # ms) n ob = drain ms n ob"
        by (rule drain_drop)
      from Cons.IH[OF Cons.prems(1) f, of ob] show ?thesis by (simp only: d)
    qed
  qed
qed

section \<open>Lemmas: measuring\<close>


lemma announce_old: "(t, node_id n) \<in> seen n \<Longrightarrow> announce n t p c v = (n, [])"
  by (simp add: announce_def obs_def Let_def)

lemma announce_seen: "seen (fst (announce n t p c v)) = insert (t, node_id n) (seen n)"
  by (auto simp: announce_def obs_def Let_def Let_def)

lemma announce_out:
  "m \<in> set (snd (announce n t p c v)) \<Longrightarrow>
     key_of m = (t, node_id n) \<and> key_of m \<notin> seen n \<and> kind m = ''OBS'' \<and> entry_of m = (p, c, v)"
  by (auto simp: announce_def obs_def Let_def key_of_def entry_of_def split: if_splits)

lemma announce_out_length: "length (snd (announce n t p c v)) \<le> 1"
  by (simp add: announce_def obs_def Let_def)

lemma announce_agg:
  "(t', f) \<in> seen n \<Longrightarrow> agg_get (agg (fst (announce n t p c v))) t' f = agg_get (agg n) t' f"
  by (auto simp: announce_def obs_def Let_def agg_get_put)

lemma announce_frame:
  "node_id (fst (announce n t p c v)) = node_id n"
  "ok (fst (announce n t p c v)) = ok n"
  "cap (fst (announce n t p c v)) = cap n"
  "cap_pos (fst (announce n t p c v)) = cap_pos n"
  "inbox (fst (announce n t p c v)) = inbox n"
  by (simp_all add: announce_def obs_def Let_def)

lemma detect_motion_frame:
  "detect_motion mpx n fr = (n2, p, c) \<Longrightarrow>
     seen n2 = seen n \<and> agg n2 = agg n \<and> node_id n2 = node_id n \<and> inbox n2 = inbox n
       \<and> ok n2 = ok n \<and> cap n2 = cap n \<and> cap_pos n2 = cap_pos n \<and> peers n2 = peers n"
  by (auto simp: detect_motion_def Let_def split: option.splits if_splits)

lemma grab_frame_cases:
  "grab_frame hog n =
     (if \<not> ok n then (n, False, 0, False)
      else if fst (cap n (cap_pos n)) \<and> snd (cap n (cap_pos n)) \<noteq> None
        then (n\<lparr>cap_pos := Suc (cap_pos n)\<rparr>,
              fst (detect_people hog (the (snd (cap n (cap_pos n))))),
              snd (detect_people hog (the (snd (cap n (cap_pos n))))), True)
        else (n\<lparr>cap_pos := Suc (cap_pos n), ok := False\<rparr>, False, 0, False))"
  by (simp add: grab_frame_def Let_def split: prod.splits option.splits bool.splits)

lemma grab_frame_motion_cases:
  "grab_frame_motion mpx n =
     (if \<not> ok n then (n, False, 0, False)
      else if fst (cap n (cap_pos n)) \<and> snd (cap n (cap_pos n)) \<noteq> None
        then (fst (detect_motion mpx (n\<lparr>cap_pos := Suc (cap_pos n)\<rparr>) (the (snd (cap n (cap_pos n))))),
              fst (snd (detect_motion mpx (n\<lparr>cap_pos := Suc (cap_pos n)\<rparr>) (the (snd (cap n (cap_pos n)))))),
              snd (snd (detect_motion mpx (n\<lparr>cap_pos := Suc (cap_pos n)\<rparr>) (the (snd (cap n (cap_pos n)))))), True)
        else (n\<lparr>cap_pos := Suc (cap_pos n), ok := False\<rparr>, False, 0, False))"
  by (simp add: grab_frame_motion_def Let_def split: prod.splits option.splits bool.splits)

lemma detect_motion_fst:
  "seen (fst (detect_motion mpx n fr)) = seen n"
  "agg (fst (detect_motion mpx n fr)) = agg n"
  "node_id (fst (detect_motion mpx n fr)) = node_id n"
  "inbox (fst (detect_motion mpx n fr)) = inbox n"
  "peers (fst (detect_motion mpx n fr)) = peers n"
  "cap (fst (detect_motion mpx n fr)) = cap n"
  "cap_pos (fst (detect_motion mpx n fr)) = cap_pos n"
  "ok (fst (detect_motion mpx n fr)) = ok n"
  by (simp_all add: detect_motion_def Let_def split: option.splits)

lemma grab_props:
  "seen (fst (grab cam n)) = seen n"
  "agg (fst (grab cam n)) = agg n"
  "node_id (fst (grab cam n)) = node_id n"
  "inbox (fst (grab cam n)) = inbox n"
  "peers (fst (grab cam n)) = peers n"
  "cap (fst (grab cam n)) = cap n"
  "cap_pos (fst (grab cam n)) = (if ok n then Suc (cap_pos n) else cap_pos n)"
  by (simp_all add: grab_def grab_frame_cases grab_frame_motion_cases detect_motion_fst
        split: camera.splits)

lemma grab_valid: "snd (snd (snd (grab cam n))) = ok (fst (grab cam n))"
  by (cases cam) (simp_all add: grab_def grab_frame_cases grab_frame_motion_cases detect_motion_fst)

lemma grab_ok: "ok (fst (grab cam n)) \<Longrightarrow> ok n"
  by (cases cam) (simp_all add: grab_def grab_frame_cases grab_frame_motion_cases detect_motion_fst split: if_splits)

lemma grab_invalid:
  "\<not> ok (fst (grab cam n)) \<Longrightarrow> snd (grab cam n) = (False, 0, False)"
  by (cases cam) (simp_all add: grab_def grab_frame_cases grab_frame_motion_cases detect_motion_fst split: if_splits)

lemma measure_grab:
  "measure_cam cam n t =
     announce (fst (grab cam n)) t (fst (snd (grab cam n))) (fst (snd (snd (grab cam n))))
       (ok (fst (grab cam n)))"
  by (cases cam)
     (simp_all add: grab_def measure_and_broadcast_def measure_and_broadcast_motion_def split_def
        grab_frame_cases grab_frame_motion_cases detect_motion_fst)

section \<open>Lemmas: steps and runs\<close>

lemma outbox_keys:
  "distinct (map key_of (snd (drain ms n []))) \<and>
   (\<forall>m \<in> set (snd (drain ms n [])). kind m = ''OBS'' \<and> key_of m \<notin> seen n \<and> m \<in> set ms)"
proof (induction ms arbitrary: n)
  case Nil
  then show ?case by simp
next
  case (Cons m ms)
  show ?case
  proof (cases "kind m = ''OBS'' \<and> key_of m \<notin> seen n")
    case True
    have "drain (m # ms) n [] = drain ms (accept n m) ([] @ [m])"
      using True by (intro drain_accept) auto
    then have out: "snd (drain (m # ms) n []) = m # snd (drain ms (accept n m) [])"
      using drain_outbox[of ms "accept n m" "[m]"] by simp
    show ?thesis
      unfolding out using Cons.IH[of "accept n m"] True
      by (auto simp: seen_accept)
  next
    case False
    then have "drain (m # ms) n [] = drain ms n []"
      by (rule drain_drop)
    then show ?thesis
      using Cons.IH[of n] by auto
  qed
qed

lemma process_messages_seen:
  "seen (fst (process_messages n)) = seen n \<union> key_of ` {m \<in> set (inbox n). kind m = ''OBS''}"
  by (simp add: process_messages_def seen_drain)

lemma process_messages_agg:
  "(t, f) \<in> seen n \<Longrightarrow> agg_get (agg (fst (process_messages n))) t f = agg_get (agg n) t f"
  by (simp add: process_messages_def agg_drain_seen)

lemma process_messages_out:
  "distinct (map key_of (snd (process_messages n)))"
  "m \<in> set (snd (process_messages n)) \<Longrightarrow>
     kind m = ''OBS'' \<and> key_of m \<notin> seen n \<and> m \<in> set (inbox n)"
  using outbox_keys[of "inbox n" "n\<lparr>inbox := []\<rparr>"]
  by (simp_all add: process_messages_def)

lemma process_messages_frame:
  "node_id (fst (process_messages n)) = node_id n"
  "ok (fst (process_messages n)) = ok n"
  "cap (fst (process_messages n)) = cap n"
  "cap_pos (fst (process_messages n)) = cap_pos n"
  "peers (fst (process_messages n)) = peers n"
  "inbox (fst (process_messages n)) = []"
  by (simp_all add: process_messages_def drain_frame)

lemma measure_seen: "seen (fst (measure_cam cam n t)) = insert (t, node_id n) (seen n)"
  by (simp add: measure_grab announce_seen grab_props)

lemma measure_agg:
  "(t', f) \<in> seen n \<Longrightarrow> agg_get (agg (fst (measure_cam cam n t))) t' f = agg_get (agg n) t' f"
  by (simp add: measure_grab announce_agg grab_props)

lemma measure_out:
  "m \<in> set (snd (measure_cam cam n t)) \<Longrightarrow>
     kind m = ''OBS'' \<and> key_of m = (t, node_id n) \<and> key_of m \<notin> seen n
       \<and> valid m = ok (fst (measure_cam cam n t))"
  using announce_out[of m "fst (grab cam n)" t "fst (snd (grab cam n))" "fst (snd (snd (grab cam n)))" "ok (fst (grab cam n))"]
  by (auto simp add: measure_grab grab_props announce_frame entry_of_def)

lemma measure_out_distinct: "distinct (map key_of (snd (measure_cam cam n t)))"
  by (simp add: measure_grab announce_def Let_def)

lemma measure_ok: "ok (fst (measure_cam cam n t)) \<Longrightarrow> ok n"
  by (simp add: measure_grab announce_frame grab_ok)

lemma step_seen: "seen n \<subseteq> seen (fst (step cam n e))"
  by (cases e) (auto simp: receive_def measure_seen process_messages_seen)

lemma step_out:
  "m \<in> set (snd (step cam n e)) \<Longrightarrow>
     kind m = ''OBS'' \<and> key_of m \<notin> seen n \<and> key_of m \<in> seen (fst (step cam n e))"
proof (cases e)
  case (Receive x)
  assume "m \<in> set (snd (step cam n e))"
  then show ?thesis using Receive by simp
next
  case (Measure t)
  assume "m \<in> set (snd (step cam n e))"
  then show ?thesis using Measure measure_out[of m cam n t] by (auto simp add: measure_seen)
next
  case Process
  assume "m \<in> set (snd (step cam n e))"
  then show ?thesis using Process process_messages_out(2)[of m n]
    by (auto simp: process_messages_seen)
qed

lemma step_out_distinct: "distinct (map key_of (snd (step cam n e)))"
  by (cases e) (simp_all add: measure_out_distinct process_messages_out(1))

lemma step_agg:
  "(t, f) \<in> seen n \<Longrightarrow> agg_get (agg (fst (step cam n e))) t f = agg_get (agg n) t f"
  by (cases e) (simp_all add: receive_def measure_agg process_messages_agg)

lemma step_ok: "ok (fst (step cam n e)) \<Longrightarrow> ok n"
  by (cases e) (auto simp: receive_def process_messages_frame dest: measure_ok)

lemma run_Cons:
  "run cam n (e # es) =
     (fst (run cam (fst (step cam n e)) es),
      map (Pair e) (snd (step cam n e)) @ snd (run cam (fst (step cam n e)) es))"
  by (simp add: split_def Let_def)

declare run.simps(2) [simp del]

lemma run_seen: "seen n \<subseteq> seen (fst (run cam n evs))"
proof (induction evs arbitrary: n)
  case Nil
  then show ?case by simp
next
  case (Cons e es)
  show ?case
    using step_seen[of n cam e] Cons.IH[of "fst (step cam n e)"]
    by (auto simp: run_Cons)
qed

lemma run_broadcast_once:
  "distinct (map key_of (broadcasts (snd (run cam n evs)))) \<and>
   (\<forall>m \<in> set (broadcasts (snd (run cam n evs))). kind m = ''OBS'' \<and> key_of m \<notin> seen n)"
proof (induction evs arbitrary: n)
  case Nil
  then show ?case by (simp add: broadcasts_def)
next
  case (Cons e es)
  define n1 where "n1 = fst (step cam n e)"
  define out where "out = snd (step cam n e)"
  define rest where "rest = broadcasts (snd (run cam n1 es))"
  have b: "broadcasts (snd (run cam n (e # es))) = out @ rest"
    by (simp add: run_Cons broadcasts_def comp_def n1_def out_def rest_def)
  have d1: "distinct (map key_of out)"
    unfolding out_def by (rule step_out_distinct)
  have o: "kind m = ''OBS'' \<and> key_of m \<notin> seen n \<and> key_of m \<in> seen n1" if "m \<in> set out" for m
    using that step_out[of m cam n e] by (simp add: out_def n1_def)
  have d2: "distinct (map key_of rest)"
    unfolding rest_def using Cons.IH[of n1] by simp
  have r: "kind m = ''OBS'' \<and> key_of m \<notin> seen n1" if "m \<in> set rest" for m
    using that Cons.IH[of n1] by (simp add: rest_def)
  have sub: "seen n \<subseteq> seen n1"
    unfolding n1_def by (rule step_seen)
  have sep: "set (map key_of out) \<inter> set (map key_of rest) = {}"
  proof (rule ccontr)
    assume "set (map key_of out) \<inter> set (map key_of rest) \<noteq> {}"
    then obtain k where "k \<in> set (map key_of out)" "k \<in> set (map key_of rest)" by blast
    then obtain x y where "x \<in> set out" "key_of x = k" "y \<in> set rest" "key_of y = k" by auto
    then show False using o[of x] r[of y] by simp
  qed
  have "distinct (map key_of (out @ rest))"
    using d1 d2 sep by simp
  moreover have "kind m = ''OBS'' \<and> key_of m \<notin> seen n" if "m \<in> set (out @ rest)" for m
  proof (cases "m \<in> set out")
    case True
    then show ?thesis using o by simp
  next
    case False
    then have "m \<in> set rest" using that by simp
    then show ?thesis using r[of m] sub by auto
  qed
  ultimately show ?case unfolding b by blast
qed

lemma run_agg:
  "(t, f) \<in> seen n \<Longrightarrow> agg_get (agg (fst (run cam n evs))) t f = agg_get (agg n) t f"
proof (induction evs arbitrary: n)
  case Nil
  then show ?case by simp
next
  case (Cons e es)
  have "(t, f) \<in> seen (fst (step cam n e))"
    using Cons.prems step_seen[of n cam e] by auto
  from Cons.IH[OF this] show ?case
    using step_agg[OF Cons.prems, of cam e] by (simp add: run_Cons)
qed

lemma run_ok: "\<not> ok n \<Longrightarrow> \<not> ok (fst (run cam n evs))"
proof (induction evs arbitrary: n)
  case Nil
  then show ?case by simp
next
  case (Cons e es)
  have "\<not> ok (fst (step cam n e))" using Cons.prems step_ok by blast
  from Cons.IH[OF this] show ?case by (simp add: run_Cons)
qed

section \<open>Lemmas: invariants of the aggregate\<close>

lemma snapshot_put:
  "snapshot_of (n\<lparr>agg := agg_put (agg n) t f e\<rparr>) t' =
     (if t' = t then AList.update f e (snapshot_of n t) else snapshot_of n t')"
  by (simp add: snapshot_of_def agg_put_def)












lemma one_entry_put:
  "one_entry_per_key n \<Longrightarrow> one_entry_per_key (n\<lparr>agg := agg_put (agg n) t f e\<rparr>)"
  by (auto simp: one_entry_per_key_def agg_put_def distinct_update split: option.splits)

lemma one_entry_accept: "one_entry_per_key n \<Longrightarrow> one_entry_per_key (accept n m)"
  using one_entry_put[of n "tick m" "from_id m" "entry_of m"]
  by (simp add: accept_def one_entry_per_key_def)

lemma one_entry_drain: "one_entry_per_key n \<Longrightarrow> one_entry_per_key (fst (drain ms n ob))"
proof (induction ms arbitrary: n ob)
  case Nil
  then show ?case by simp
next
  case (Cons m ms)
  show ?case
  proof (cases "kind m = ''OBS'' \<and> key_of m \<notin> seen n")
    case True
    then have "drain (m # ms) n ob = drain ms (accept n m) (ob @ [m])"
      by (intro drain_accept) auto
    then show ?thesis using Cons.IH[OF one_entry_accept[OF Cons.prems]] by simp
  next
    case False
    then have "drain (m # ms) n ob = drain ms n ob" by (rule drain_drop)
    then show ?thesis using Cons.IH[OF Cons.prems] by simp
  qed
qed

lemma one_entry_announce:
  "one_entry_per_key n \<Longrightarrow> one_entry_per_key (fst (announce n t p c v))"
  using one_entry_put[of n t "node_id n" "(p, c, v)"]
  by (simp add: announce_def Let_def one_entry_per_key_def)

lemma one_entry_step: "one_entry_per_key n \<Longrightarrow> one_entry_per_key (fst (step cam n e))"
proof (cases e)
  case (Receive m)
  assume "one_entry_per_key n"
  then show ?thesis using Receive by (simp add: one_entry_per_key_def receive_def)
next
  case (Measure t)
  assume "one_entry_per_key n"
  then have "one_entry_per_key (fst (grab cam n))"
    by (simp add: one_entry_per_key_def grab_props)
  then show ?thesis using Measure by (simp add: measure_grab one_entry_announce)
next
  case Process
  assume "one_entry_per_key n"
  then have "one_entry_per_key (n\<lparr>inbox := []\<rparr>)" by (simp add: one_entry_per_key_def)
  then show ?thesis using Process by (simp add: process_messages_def one_entry_drain)
qed

lemma one_entry_run: "one_entry_per_key n \<Longrightarrow> one_entry_per_key (fst (run cam n evs))"
proof (induction evs arbitrary: n)
  case Nil
  then show ?case by simp
next
  case (Cons e es)
  from Cons.IH[OF one_entry_step[OF Cons.prems]] show ?case by (simp add: run_Cons)
qed

lemma one_entry_Node: "one_entry_per_key (Node i c opened)"
  by (simp add: one_entry_per_key_def Node_def)






lemma own_observations_invalid:
  "\<not> ok n \<Longrightarrow> m \<in> set (own_observations (snd (run cam n evs))) \<Longrightarrow> \<not> valid m"
proof (induction evs arbitrary: n)
  case Nil
  then show ?case by (simp add: own_observations_def)
next
  case (Cons e es)
  have nok: "\<not> ok (fst (step cam n e))" using Cons.prems(1) step_ok by blast
  have "m \<in> set (own_observations (map (Pair e) (snd (step cam n e))))
          \<or> m \<in> set (own_observations (snd (run cam (fst (step cam n e)) es)))"
    using Cons.prems(2) by (auto simp: run_Cons own_observations_def)
  then show ?case
  proof
    assume a: "m \<in> set (own_observations (map (Pair e) (snd (step cam n e))))"
    then obtain t where e: "e = Measure t" "m \<in> set (snd (measure_cam cam n t))"
      by (cases e) (auto simp: own_observations_def)
    then show ?thesis using measure_out[of m cam n t] nok by simp
  next
    assume "m \<in> set (own_observations (snd (run cam (fst (step cam n e)) es)))"
    then show ?thesis using Cons.IH[OF nok] by simp
  qed
qed

section \<open>Lemmas: a failing read\<close>

lemma grab_read_fails:
  "read_fails n \<Longrightarrow>
     grab cam n = ((if ok n then n\<lparr>cap_pos := Suc (cap_pos n), ok := False\<rparr> else n), False, 0, False)"
  by (cases cam)
     (auto simp: read_fails_def grab_def grab_frame_def grab_frame_motion_def Let_def
        split: if_splits prod.splits option.splits bool.splits)

lemma measure_read_fails:
  "read_fails n \<Longrightarrow>
     measure_cam cam n t =
       announce (if ok n then n\<lparr>cap_pos := Suc (cap_pos n), ok := False\<rparr> else n) t False 0 False"
  by (simp add: measure_grab grab_read_fails)


section \<open>Lemmas: the numeric variant\<close>

lemma count_list_replicate_self: "list_all (\<lambda>v. v = a) vs \<Longrightarrow> count_list vs a = length vs"
  by (induction vs) auto

lemma count_list_replicate_other: "list_all (\<lambda>v. v = a) vs \<Longrightarrow> b \<noteq> a \<Longrightarrow> count_list vs b = 0"
  by (induction vs) auto

lemma parity_votes_add:
  "parity_votes n \<Longrightarrow>
     parity_votes (n\<lparr>known_numbers := add_vote (known_numbers n) number (parity_vote number)\<rparr>)"
  by (auto simp: parity_votes_def add_vote_def split: option.splits)

lemma parity_votes_drain:
  "parity_votes n \<Longrightarrow> parity_messages ms \<Longrightarrow>
     parity_votes (n\<lparr>known_numbers := simple_drain ms (known_numbers n)\<rparr>)"
proof (induction ms arbitrary: n)
  case Nil
  then show ?case by simp
next
  case (Cons m ms)
  obtain number v where m: "m = (number, v)" by (cases m)
  have v: "v = parity_vote number" and rest: "parity_messages ms"
    using Cons.prems(2) by (simp_all add: parity_messages_def m)
  let ?n1 = "n\<lparr>known_numbers := add_vote (known_numbers n) number (parity_vote number)\<rparr>"
  have "parity_votes ?n1" using Cons.prems(1) by (rule parity_votes_add)
  from Cons.IH[OF this rest] show ?case by (simp add: m v)
qed

lemma parity_votes_reached:
  "parity_votes (simple_Node i)"
  "parity_votes n \<Longrightarrow> parity_votes (fst (simple_vote n number))"
  "parity_votes n \<Longrightarrow> parity_messages (s_inbox n) \<Longrightarrow> parity_votes (simple_process_messages n)"
  "parity_messages (snd (simple_vote n number))"
proof -
  show "parity_votes (simple_Node i)" by (simp add: parity_votes_def simple_Node_def)
  show "parity_votes n \<Longrightarrow> parity_votes (fst (simple_vote n number))"
    using parity_votes_add[of n number] by (simp add: simple_vote_def Let_def)
  show "parity_votes n \<Longrightarrow> parity_messages (s_inbox n) \<Longrightarrow> parity_votes (simple_process_messages n)"
    using parity_votes_drain[of n "s_inbox n"]
    by (simp add: simple_process_messages_def parity_votes_def)
  show "parity_messages (snd (simple_vote n number))"
    by (simp add: simple_vote_def parity_messages_def Let_def)
qed

lemma simple_drain_votes:
  "simple_drain ms kn number =
     (if filter (\<lambda>(k, v). k = number) ms = [] then kn number
      else Some ((case kn number of None \<Rightarrow> [] | Some vs \<Rightarrow> vs)
                  @ map snd (filter (\<lambda>(k, v). k = number) ms)))"
proof (induction ms arbitrary: kn)
  case Nil
  then show ?case by simp
next
  case (Cons m ms)
  obtain k v where m: "m = (k, v)" by (cases m)
  show ?case
    unfolding m simple_drain.simps Cons.IH[of "add_vote kn k v"]
    by (simp add: add_vote_def split: option.splits)
qed

lemma simple_process_messages_votes:
  "known_numbers (simple_process_messages s) number =
     (if filter (\<lambda>(k, v). k = number) (s_inbox s) = [] then known_numbers s number
      else Some ((case known_numbers s number of None \<Rightarrow> [] | Some vs \<Rightarrow> vs)
                  @ map snd (filter (\<lambda>(k, v). k = number) (s_inbox s))))"
  by (simp add: simple_process_messages_def simple_drain_votes)

lemma check_consensus_strict:
  "known_numbers s number = Some votes \<Longrightarrow> check_consensus s number threshold = Some w \<Longrightarrow>
     (w = ''even'') = (count_list votes 1 > count_list votes 0)"
  by (auto simp: check_consensus_def Let_def split: if_splits)

lemmas simple_eval =
  voted_42_def simple_Node_def simple_receive_def simple_vote_def simple_process_messages_def
  add_vote_def parity_vote_def Let_def

section \<open>Lemmas: the temperature variant\<close>

lemma temp_drain_readings:
  "temp_drain ms km r =
     (if filter (\<lambda>(k, v). k = r) ms = [] then km r
      else Some ((case km r of None \<Rightarrow> [] | Some vs \<Rightarrow> vs)
                  @ map snd (filter (\<lambda>(k, v). k = r) ms)))"
proof (induction ms arbitrary: km)
  case Nil
  then show ?case by simp
next
  case (Cons m ms)
  obtain k v where m: "m = (k, v)" by (cases m)
  show ?case
    unfolding m temp_drain.simps Cons.IH[of "add_reading km k v"]
    by (simp add: add_reading_def split: option.splits)
qed




lemma temp_deliver_fold:
  assumes "i < length nt" "q < length nt"
  shows "length (fold (\<lambda>p nt. if t_node_id (nt ! p) \<noteq> t_node_id (nt ! i)
                              then nt[p := temp_receive (nt ! p) m] else nt) ps nt) = length nt
         \<and> fold (\<lambda>p nt. if t_node_id (nt ! p) \<noteq> t_node_id (nt ! i)
                              then nt[p := temp_receive (nt ! p) m] else nt) ps nt ! q
             = (nt ! q)\<lparr>t_inbox := t_inbox (nt ! q)
                 @ (if t_node_id (nt ! q) \<noteq> t_node_id (nt ! i)
                    then replicate (count_list ps q) m else [])\<rparr>"
  using assms
proof (induction ps arbitrary: nt)
  case Nil
  then show ?case by simp
next
  case (Cons p ps)
  let ?f = "\<lambda>p nt. if t_node_id (nt ! p) \<noteq> t_node_id (nt ! i)
                    then nt[p := temp_receive (nt ! p) m] else nt"
  define nt1 where "nt1 = ?f p nt"
  have len: "length nt1 = length nt" by (simp add: nt1_def)
  have at: "nt1 ! x = (nt ! x)\<lparr>t_inbox := t_inbox (nt ! x)
               @ (if x = p \<and> t_node_id (nt ! x) \<noteq> t_node_id (nt ! i) then [m] else [])\<rparr>"
    if "x < length nt" for x
    using that by (cases "x = p") (auto simp: nt1_def nth_list_update temp_receive_def)
  have i1: "i < length nt1" and q1: "q < length nt1" using Cons.prems len by simp_all
  note IH = Cons.IH[OF i1 q1]
  have step: "fold ?f (p # ps) nt = fold ?f ps nt1" by (simp add: nt1_def)
  have idq: "t_node_id (nt1 ! q) = t_node_id (nt ! q)"
    by (simp add: at[OF Cons.prems(2)])
  have idi: "t_node_id (nt1 ! i) = t_node_id (nt ! i)"
    by (simp add: at[OF Cons.prems(1)])
  have inb: "t_inbox (nt1 ! q) = t_inbox (nt ! q)
               @ (if q = p \<and> t_node_id (nt ! q) \<noteq> t_node_id (nt ! i) then [m] else [])"
    by (simp add: at[OF Cons.prems(2)])
  have l: "length (fold ?f (p # ps) nt) = length nt"
    unfolding step using IH len by simp
  have "fold ?f ps nt1 ! q
          = (nt1 ! q)\<lparr>t_inbox := t_inbox (nt1 ! q)
                 @ (if t_node_id (nt1 ! q) \<noteq> t_node_id (nt1 ! i)
                    then replicate (count_list ps q) m else [])\<rparr>"
    using IH by blast
  also have "\<dots> = (nt ! q)\<lparr>t_inbox := t_inbox (nt ! q)
                 @ (if t_node_id (nt ! q) \<noteq> t_node_id (nt ! i)
                    then replicate (count_list (p # ps) q) m else [])\<rparr>"
    unfolding idq idi inb by (simp add: at[OF Cons.prems(2)] replicate_append_same)
  finally have v: "fold ?f (p # ps) nt ! q
          = (nt ! q)\<lparr>t_inbox := t_inbox (nt ! q)
                 @ (if t_node_id (nt ! q) \<noteq> t_node_id (nt ! i)
                    then replicate (count_list (p # ps) q) m else [])\<rparr>"
    unfolding step .
  show ?case using l v by (rule conjI)
qed

lemma temp_gossip_nth:
  assumes "i < length net" "q < length net"
  shows "length (temp_gossip i m net) = length net"
    and "temp_gossip i m net ! q
           = (net ! q)\<lparr>t_inbox := t_inbox (net ! q)
               @ (if t_node_id (net ! q) \<noteq> t_node_id (net ! i)
                  then replicate (count_list (t_peers (net ! i)) q) m else [])\<rparr>"
  using temp_deliver_fold[OF assms, of m "t_peers (net ! i)"] by (simp_all add: temp_gossip_def)

lemma temp_net_measure_nth:
  assumes "i < length net" "q < length net"
  shows "length (temp_net_measure i r true_temp noise net) = length net"
    and "temp_net_measure i r true_temp noise net ! q
           = (if q = i then fst (temp_measure (net ! i) r true_temp noise) else net ! q)
               \<lparr>t_inbox := t_inbox (net ! q)
                  @ (if t_node_id (net ! q) \<noteq> t_node_id (net ! i)
                     then replicate (count_list (t_peers (net ! i)) q)
                            (r, if t_faulty (net ! i) then true_temp + 20 else true_temp + noise)
                     else [])\<rparr>"
proof -
  define n1 where "n1 = fst (temp_measure (net ! i) r true_temp noise)"
  define net1 where "net1 = net[i := n1]"
  define m where "m = (r, if t_faulty (net ! i) then true_temp + 20 else true_temp + noise)"
  have nm: "temp_net_measure i r true_temp noise net = temp_gossip i m net1"
    by (simp add: temp_net_measure_def temp_measure_def Let_def net1_def n1_def m_def)
  have len: "length net1 = length net" by (simp add: net1_def)
  have i1: "i < length net1" and q1: "q < length net1" using assms len by simp_all
  have keep: "t_node_id n1 = t_node_id (net ! i)" "t_peers n1 = t_peers (net ! i)"
    "t_inbox n1 = t_inbox (net ! i)"
    by (simp_all add: n1_def temp_measure_def Let_def)
  have at: "net1 ! q = (if q = i then n1 else net ! q)"
    using assms by (simp add: net1_def nth_list_update)
  have at_i: "net1 ! i = n1" using assms by (simp add: net1_def)
  show "length (temp_net_measure i r true_temp noise net) = length net"
    unfolding nm using temp_gossip_nth(1)[OF i1 q1] len by simp
  show "temp_net_measure i r true_temp noise net ! q
           = (if q = i then fst (temp_measure (net ! i) r true_temp noise) else net ! q)
               \<lparr>t_inbox := t_inbox (net ! q)
                  @ (if t_node_id (net ! q) \<noteq> t_node_id (net ! i)
                     then replicate (count_list (t_peers (net ! i)) q)
                            (r, if t_faulty (net ! i) then true_temp + 20 else true_temp + noise)
                     else [])\<rparr>"
  proof -
    have "temp_gossip i m net1 ! q
            = (if q = i then n1 else net ! q)
                \<lparr>t_inbox := t_inbox (net ! q)
                   @ (if t_node_id (net ! q) \<noteq> t_node_id (net ! i)
                      then replicate (count_list (t_peers (net ! i)) q) m else [])\<rparr>"
      unfolding temp_gossip_nth(2)[OF i1 q1] at at_i
      by (cases "q = i") (simp_all add: keep)
    then show ?thesis
      unfolding nm n1_def m_def .
  qed
qed

lemma count_list_upt: "count_list [0..<k] q = (if q < k then 1 else 0)"
  by (induction k) auto

lemma temp_net_process_all:
  "j \<le> length net \<Longrightarrow>
     fold temp_net_process [0..<j] net = map temp_process_messages (take j net) @ drop j net"
proof (induction j)
  case 0
  then show ?case by simp
next
  case (Suc j)
  then have j: "j < length net" by simp
  have "fold temp_net_process [0..<Suc j] net
          = temp_net_process j (map temp_process_messages (take j net) @ drop j net)"
    using Suc by simp
  also have "\<dots> = map temp_process_messages (take (Suc j) net) @ drop (Suc j) net"
    using j
    by (simp add: temp_net_process_def nth_append list_update_append take_Suc_conv_app_nth
        Cons_nth_drop_Suc[symmetric])
  finally show ?case .
qed

lemma temp_round: "fold temp_net_process [0..<length net] net = map temp_process_messages net"
  using temp_net_process_all[of "length net" net] by simp

lemma temp_process_messages_twice:
  "temp_process_messages (temp_process_messages s) = temp_process_messages s"
  by (simp add: temp_process_messages_def)

lemma temp_measured:
  "j \<le> k \<Longrightarrow>
     fold (\<lambda>i net. temp_net_measure i ''temp_001'' 28 (noise i) net) [0..<j] (temp_cluster k)
       = map (\<lambda>q. \<lparr>t_node_id = int q, t_peers = [0..<k],
                    t_inbox = map (\<lambda>p. (''temp_001'', reading_at noise p))
                                (filter (\<lambda>p. p \<noteq> q) [0..<j]),
                    known_measurements =
                      (if q < j then [''temp_001'' \<mapsto> [reading_at noise q]] else Map.empty),
                    t_faulty = (q mod 7 = 0)\<rparr>) [0..<k]"
proof (induction j)
  case 0
  then show ?case by (simp add: temp_cluster_def temp_Node_def)
next
  case (Suc j)
  let ?S = "\<lambda>j. map (\<lambda>q. \<lparr>t_node_id = int q, t_peers = [0..<k],
                    t_inbox = map (\<lambda>p. (''temp_001'', reading_at noise p))
                                (filter (\<lambda>p. p \<noteq> q) [0..<j]),
                    known_measurements =
                      (if q < j then [''temp_001'' \<mapsto> [reading_at noise q]] else Map.empty),
                    t_faulty = (q mod 7 = 0)\<rparr>) [0..<k]"
  have j: "j < k" using Suc.prems by simp
  have IH: "fold (\<lambda>i net. temp_net_measure i ''temp_001'' 28 (noise i) net) [0..<j]
              (temp_cluster k) = ?S j"
    using Suc by simp
  have len: "length (?S j) = k" by simp
  have step: "temp_net_measure j ''temp_001'' 28 (noise j) (?S j) = ?S (Suc j)"
  proof (rule nth_equalityI)
    show "length (temp_net_measure j ''temp_001'' 28 (noise j) (?S j)) = length (?S (Suc j))"
      using temp_net_measure_nth(1)[of j "?S j" j] j by simp
  next
    fix q
    assume "q < length (temp_net_measure j ''temp_001'' 28 (noise j) (?S j))"
    then have q: "q < k"
      using temp_net_measure_nth(1)[of j "?S j" j] j by simp
    have jl: "j < length (?S j)" and ql: "q < length (?S j)" using j q by simp_all
    show "temp_net_measure j ''temp_001'' 28 (noise j) (?S j) ! q = ?S (Suc j) ! q"
      unfolding temp_net_measure_nth(2)[OF jl ql]
      using j q
      by (cases "q = j")
         (simp_all add: count_list_upt temp_measure_def Let_def add_reading_def reading_at_def)
  qed
  show ?case
    using IH step by simp
qed

lemma temp_drain_one_id:
  "temp_drain (map (\<lambda>p. (r, f p)) ps) km r
     = (if ps = [] then km r
        else Some ((case km r of None \<Rightarrow> [] | Some vs \<Rightarrow> vs) @ map f ps))"
  by (simp add: temp_drain_readings comp_def)

lemma simulate_readings:
  assumes "q < k"
  shows "known_measurements (temp_simulate k noise ! q) ''temp_001''
           = Some (reading_at noise q # map (reading_at noise) (filter (\<lambda>p. p \<noteq> q) [0..<k]))"
proof -
  let ?S = "map (\<lambda>q. \<lparr>t_node_id = int q, t_peers = [0..<k],
                    t_inbox = map (\<lambda>p. (''temp_001'', reading_at noise p))
                                (filter (\<lambda>p. p \<noteq> q) [0..<k]),
                    known_measurements =
                      (if q < k then [''temp_001'' \<mapsto> [reading_at noise q]] else Map.empty),
                    t_faulty = (q mod 7 = 0)\<rparr>) [0..<k]"
  have m: "fold (\<lambda>i net. temp_net_measure i ''temp_001'' 28 (noise i) net) [0..<k]
             (temp_cluster k) = ?S"
    using temp_measured[of k k noise] by simp
  have r: "fold temp_net_process [0..<k] net = map temp_process_messages net"
    if "length net = k" for net
    using temp_round[of net] that by simp
  have "temp_simulate k noise = map temp_process_messages ?S"
    unfolding temp_simulate_def Let_def m
    by (simp add: r comp_def temp_process_messages_twice)
  then have "temp_simulate k noise ! q = temp_process_messages (?S ! q)"
    using assms by simp
  then show ?thesis
    using assms by (simp add: temp_process_messages_def temp_drain_one_id)
qed




lemma upt_5: "[0..<5] = [0, 1, 2, 3, 4]"
  by (simp add: upt_rec)


lemma simulate_5_values:
  "known_measurements (temp_simulate 5 (\<lambda>i. 0) ! 1) ''temp_001'' = Some [28, 48, 28, 28, 28]"
  using simulate_readings[of 1 5 "\<lambda>i. 0"] by (simp add: upt_5 reading_at_def)


section \<open>Lemmas: delivery by gossip\<close>

lemma deliver_fold:
  assumes "i < length nt" "q < length nt"
  shows "length (fold (\<lambda>p nt. if node_id (nt ! p) \<noteq> node_id (nt ! i)
                              then nt[p := receive (nt ! p) m] else nt) ps nt) = length nt
         \<and> node_id (fold (\<lambda>p nt. if node_id (nt ! p) \<noteq> node_id (nt ! i)
                              then nt[p := receive (nt ! p) m] else nt) ps nt ! q) = node_id (nt ! q)
         \<and> inbox (fold (\<lambda>p nt. if node_id (nt ! p) \<noteq> node_id (nt ! i)
                              then nt[p := receive (nt ! p) m] else nt) ps nt ! q)
             = inbox (nt ! q)
                 @ (if node_id (nt ! q) \<noteq> node_id (nt ! i) then replicate (count_list ps q) m
                    else [])
         \<and> (node_id (nt ! q) = node_id (nt ! i) \<longrightarrow>
              fold (\<lambda>p nt. if node_id (nt ! p) \<noteq> node_id (nt ! i)
                              then nt[p := receive (nt ! p) m] else nt) ps nt ! q = nt ! q)"
  using assms
proof (induction ps arbitrary: nt)
  case Nil
  then show ?case by simp
next
  case (Cons p ps)
  let ?f = "\<lambda>p nt. if node_id (nt ! p) \<noteq> node_id (nt ! i) then nt[p := receive (nt ! p) m] else nt"
  define nt1 where "nt1 = ?f p nt"
  have len: "length nt1 = length nt" by (simp add: nt1_def)
  have ids: "node_id (nt1 ! x) = node_id (nt ! x)" if "x < length nt" for x
    using that by (cases "x = p") (auto simp: nt1_def nth_list_update receive_def)
  have inb: "inbox (nt1 ! q) = inbox (nt ! q)
               @ (if q = p \<and> node_id (nt ! q) \<noteq> node_id (nt ! i) then [m] else [])"
    using Cons.prems(2) by (auto simp: nt1_def nth_list_update receive_def)
  have same: "nt1 ! q = nt ! q" if "node_id (nt ! q) = node_id (nt ! i)"
    using that Cons.prems(2) by (cases "q = p") (auto simp: nt1_def nth_list_update)
  have i1: "i < length nt1" and q1: "q < length nt1" using Cons.prems len by simp_all
  note IH = Cons.IH[OF i1 q1]
  have step: "fold ?f (p # ps) nt = fold ?f ps nt1" by (simp add: nt1_def)
  show ?case
    unfolding step using IH len ids[OF Cons.prems(1)] ids[OF Cons.prems(2)] inb same
    by (auto simp: replicate_append_same)
qed

lemma gossip_delivers:
  assumes "i < length net" "q < length net"
  shows "length (gossip i m net) = length net"
    and "node_id (gossip i m net ! q) = node_id (net ! q)"
    and "inbox (gossip i m net ! q)
           = inbox (net ! q)
               @ (if node_id (net ! q) \<noteq> node_id (net ! i)
                  then replicate (count_list (peers (net ! i)) q) m else [])"
    and "node_id (net ! q) = node_id (net ! i) \<Longrightarrow> gossip i m net ! q = net ! q"
  using deliver_fold[OF assms, of m "peers (net ! i)"] by (simp_all add: gossip_def)

lemma measure_keeps:
  "node_id (fst (measure_cam cam n t)) = node_id n"
  "peers (fst (measure_cam cam n t)) = peers n"
  "inbox (fst (measure_cam cam n t)) = inbox n"
  by (simp_all add: measure_grab announce_def Let_def grab_props)

lemma measure_out_cases:
  "snd (measure_cam cam n t) = [] \<or> (\<exists>m. snd (measure_cam cam n t) = [m])"
  by (simp add: measure_grab announce_def Let_def)

lemma net_measure_inbox:
  assumes "i < length net" "q < length net"
  shows "inbox (net_measure cam i t net ! q)
           = inbox (net ! q)
               @ (if node_id (net ! q) \<noteq> node_id (net ! i)
                  then concat (map (replicate (count_list (peers (net ! i)) q))
                                 (snd (measure_cam cam (net ! i) t)))
                  else [])"
proof -
  define n1 where "n1 = fst (measure_cam cam (net ! i) t)"
  define net1 where "net1 = net[i := n1]"
  have nm: "net_measure cam i t net = fold (gossip i) (snd (measure_cam cam (net ! i) t)) net1"
    by (simp add: net_measure_def split_def Let_def net1_def n1_def)
  have len: "length net1 = length net" by (simp add: net1_def)
  have i1: "i < length net1" and q1: "q < length net1" using assms len by simp_all
  have at_i: "net1 ! i = n1" using assms(1) by (simp add: net1_def)
  have ids: "node_id (net1 ! q) = node_id (net ! q)"
    using assms by (cases "q = i") (simp_all add: net1_def n1_def measure_keeps)
  have idi: "node_id (net1 ! i) = node_id (net ! i)"
    by (simp add: at_i n1_def measure_keeps)
  have prs: "peers (net1 ! i) = peers (net ! i)"
    by (simp add: at_i n1_def measure_keeps)
  have inb: "inbox (net1 ! q) = inbox (net ! q)"
    using assms by (cases "q = i") (simp_all add: net1_def n1_def measure_keeps)
  from measure_out_cases[of cam "net ! i" t] show ?thesis
  proof
    assume e: "snd (measure_cam cam (net ! i) t) = []"
    show ?thesis by (simp add: nm e inb)
  next
    assume "\<exists>m. snd (measure_cam cam (net ! i) t) = [m]"
    then obtain m where e: "snd (measure_cam cam (net ! i) t) = [m]" by blast
    show ?thesis
      using gossip_delivers(3)[OF i1 q1, of m] by (simp add: nm e inb ids idi prs)
  qed
qed


lemma net_measure_self:
  assumes "i < length net"
  shows "net_measure cam i t net ! i = fst (measure_cam cam (net ! i) t)"
proof -
  define n1 where "n1 = fst (measure_cam cam (net ! i) t)"
  define net1 where "net1 = net[i := n1]"
  have nm: "net_measure cam i t net = fold (gossip i) (snd (measure_cam cam (net ! i) t)) net1"
    by (simp add: net_measure_def split_def Let_def net1_def n1_def)
  have i1: "i < length net1" using assms by (simp add: net1_def)
  have at_i: "net1 ! i = n1" using assms by (simp add: net1_def)
  from measure_out_cases[of cam "net ! i" t] show ?thesis
  proof
    assume e: "snd (measure_cam cam (net ! i) t) = []"
    show ?thesis by (simp add: nm e at_i n1_def)
  next
    assume "\<exists>m. snd (measure_cam cam (net ! i) t) = [m]"
    then obtain m where e: "snd (measure_cam cam (net ! i) t) = [m]" by blast
    show ?thesis
      using gossip_delivers(4)[OF i1 i1, of m] by (simp add: nm e at_i n1_def)
  qed
qed

section \<open>Evaluating the examples\<close>

lemmas eval_defs =
  Node_def connect_def receive_def obs_def agg_put_def agg_get_def key_of_def entry_of_def
  announce_def grab_frame_def detect_people_def measure_and_broadcast_def
  process_messages_def drain.simps run.simps one_person_def
  no_camera_def steady_camera_def flaky_camera_def Let_def

lemma tie_snapshot:
  "snapshot_of tie_node 0 = [(1, True, 3, True), (2, False, 0, True), (3, True, 9, False)]"
  by (simp add: tie_node_def snapshot_of_def eval_defs)

lemma blind_snapshot:
  "snapshot_of blind_node 0 = [(1, False, 0, False), (2, False, 0, False)]"
  by (simp add: blind_node_def snapshot_of_def eval_defs)

lemma five_snapshot:
  "snapshot_of five_node 0 =
     [(0, True, 1, True), (1, True, 2, True), (2, False, 0, True), (3, True, 4, True),
      (4, False, 0, True)]"
  by (simp add: five_node_def five_events_def snapshot_of_def eval_defs)

lemma five_inbox: "inbox five_node = []"
  by (simp add: five_node_def five_events_def eval_defs)

section \<open>The claims about the local decision\<close>

text \<open>
  C3, for the camera programs. Whenever \<^verbatim>\<open>local_decision\<close> returns a result, its majority
  flag is \<open>present_count \<ge> contributors - present_count\<close> over the valid entries of the
  tick's snapshot, and the contributors it reports are the valid entries. With two valid
  entries, one present and one absent, the flag is true: a tie goes to PRESENT.

  \<^verbatim>\<open>check_consensus\<close> of the numeric variant answers \<^verbatim>\<open>"even"\<close> exactly when
  \<^verbatim>\<open>votes.count(1) > votes.count(0)\<close>, a strict comparison. On a nonempty list of equal
  parity votes, which is what that program builds for a number, the strict and the
  non-strict comparison agree and the counts do not tie.
\<close>

theorem majority_rule:
  "(local_decision n t q = Some (maj, r, c, tc) \<longrightarrow>
      maj = (present_count (snapshot_of n t)
               \<ge> contributors_of (snapshot_of n t) - present_count (snapshot_of n t))
      \<and> c = contributors_of (snapshot_of n t)
      \<and> (contributors_of (snapshot_of n t) = 2 \<and> present_count (snapshot_of n t) = 1 \<longrightarrow> maj))
   \<and> (known_numbers s number = Some votes \<and> check_consensus s number threshold = Some w \<longrightarrow>
        (w = ''even'') = (count_list votes 1 > count_list votes 0))
   \<and> (known_numbers s number = Some votes \<and> votes \<noteq> []
        \<and> list_all (\<lambda>v. v = parity_vote number) votes
        \<and> check_consensus s number threshold = Some w \<longrightarrow>
          (w = ''even'') = (count_list votes 1 \<ge> count_list votes 0)
          \<and> count_list votes 1 \<noteq> count_list votes 0)"
proof -
  have strict: "known_numbers s number = Some votes
        \<and> check_consensus s number threshold = Some w \<longrightarrow>
        (w = ''even'') = (count_list votes 1 > count_list votes 0)"
    using check_consensus_strict[of s number votes threshold w] by blast
  have camera: "local_decision n t q = Some (maj, r, c, tc) \<longrightarrow>
      maj = (present_count (snapshot_of n t)
               \<ge> contributors_of (snapshot_of n t) - present_count (snapshot_of n t))
      \<and> c = contributors_of (snapshot_of n t)
      \<and> (contributors_of (snapshot_of n t) = 2 \<and> present_count (snapshot_of n t) = 1 \<longrightarrow> maj)"
    by (auto simp: local_decision_eq decide_eq split: if_splits)
  have numeric: "known_numbers s number = Some votes \<and> votes \<noteq> []
        \<and> list_all (\<lambda>v. v = parity_vote number) votes
        \<and> check_consensus s number threshold = Some w \<longrightarrow>
          (w = ''even'') = (count_list votes 1 \<ge> count_list votes 0)
          \<and> count_list votes 1 \<noteq> count_list votes 0"
  proof
    assume a: "known_numbers s number = Some votes \<and> votes \<noteq> []
        \<and> list_all (\<lambda>v. v = parity_vote number) votes
        \<and> check_consensus s number threshold = Some w"
    then have w: "w = (if count_list votes 1 > count_list votes 0 then ''even'' else ''odd'')"
      by (auto simp: check_consensus_def Let_def split: if_splits)
    show "(w = ''even'') = (count_list votes 1 \<ge> count_list votes 0)
          \<and> count_list votes 1 \<noteq> count_list votes 0"
    proof (cases "number mod 2 = 0")
      case True
      then have p: "parity_vote number = 1" by (simp add: parity_vote_def)
      have "count_list votes 1 = length votes" "count_list votes 0 = 0"
        using a count_list_replicate_self[of 1 votes] count_list_replicate_other[of 1 votes 0]
        by (simp_all add: p)
      then show ?thesis using a w by simp
    next
      case False
      then have p: "parity_vote number = 0" by (simp add: parity_vote_def)
      have "count_list votes 0 = length votes" "count_list votes 1 = 0"
        using a count_list_replicate_self[of 0 votes] count_list_replicate_other[of 0 votes 1]
        by (simp_all add: p)
      then show ?thesis using a w by simp
    qed
  qed
  show ?thesis using camera strict numeric by blast
qed

text \<open>
  The claim as stated fails in the numeric variant on a tie. With one vote 1 and one vote
  0 for a number and a threshold of 2, \<^verbatim>\<open>check_consensus\<close> returns a result, and the result
  is \<^verbatim>\<open>"odd"\<close>: the positive vote does not win the tie.
\<close>

theorem strict_majority_counterexample:
  "known_numbers tied_votes 4 = Some [1, 0]
   \<and> count_list [1, 0 :: int] 1 \<ge> count_list [1, 0 :: int] 0
   \<and> check_consensus tied_votes 4 2 = Some ''odd''"
proof -
  have k: "known_numbers tied_votes 4 = Some [1, 0]"
    by (simp add: tied_votes_def simple_eval)
  show ?thesis
    by (simp add: check_consensus_def k)
qed

theorem majority_rule_witness:
  "local_decision tie_node 0 2 = Some (True, 1 / 2, 2, 3)
   \<and> contributors_of (snapshot_of tie_node 0) = 2
   \<and> present_count (snapshot_of tie_node 0) = 1
   \<and> True = (present_count (snapshot_of tie_node 0)
               \<ge> contributors_of (snapshot_of tie_node 0) - present_count (snapshot_of tie_node 0))
   \<and> known_numbers (simple_process_messages (simple_receive voted_42 (42, 1))) 42 = Some [1, 1]
   \<and> check_consensus (simple_process_messages (simple_receive voted_42 (42, 1))) 42 2 = Some ''even''
   \<and> count_list [1, 1 :: int] 1 \<ge> count_list [1, 1 :: int] 0"
proof -
  have h: "local_decision tie_node 0 2 = Some (True, 1 / 2, 2, 3)"
    by (simp add: local_decision_eq tie_snapshot decide_def)
  have c: "contributors_of (snapshot_of tie_node 0) = 2"
    by (simp add: tie_snapshot contributors_of_def)
  have p: "present_count (snapshot_of tie_node 0) = 1"
    by (simp add: tie_snapshot present_count_def)
  have k: "known_numbers (simple_process_messages (simple_receive voted_42 (42, 1))) 42 = Some [1, 1]"
    by (simp add: simple_eval)
  have e: "check_consensus (simple_process_messages (simple_receive voted_42 (42, 1))) 42 2
             = Some ''even''"
    by (simp add: check_consensus_def k)
  have l: "list_all (\<lambda>v. v = parity_vote 42) [1, 1]"
    by (simp add: parity_vote_def)
  show ?thesis
    using majority_rule[of tie_node 0 2 True "1 / 2" 2 3
            "simple_process_messages (simple_receive voted_42 (42, 1))" 42 "[1, 1]" 2 "''even''"]
          h c p k e l
    by simp
qed

text \<open>
  C5. \<^verbatim>\<open>local_decision\<close> returns \<^verbatim>\<open>None\<close> exactly when the number of valid entries of the
  tick's snapshot is below \<^verbatim>\<open>min_quorum\<close> or is zero. With no valid entry the answer is
  \<^verbatim>\<open>None\<close> for every \<^verbatim>\<open>min_quorum\<close>, also for zero and for negative ones.
\<close>

theorem no_quorum_iff:
  "(local_decision n t q = None \<longleftrightarrow>
      contributors_of (snapshot_of n t) < q \<or> contributors_of (snapshot_of n t) = 0)
   \<and> (contributors_of (snapshot_of n t) = 0 \<longrightarrow> local_decision n t q = None)"
  by (simp add: local_decision_eq decide_eq)

theorem no_quorum_iff_witness:
  "contributors_of (snapshot_of blind_node 0) = 0
   \<and> local_decision blind_node 0 1 = None
   \<and> local_decision blind_node 0 0 = None
   \<and> local_decision blind_node 0 (- 3) = None
   \<and> local_decision tie_node 0 3 = None
   \<and> local_decision tie_node 0 2 \<noteq> None"
proof -
  have c: "contributors_of (snapshot_of blind_node 0) = 0"
    by (simp add: blind_snapshot contributors_of_def)
  have c2: "contributors_of (snapshot_of tie_node 0) = 2"
    by (simp add: tie_snapshot contributors_of_def)
  show ?thesis
    using no_quorum_iff[of blind_node 0 1] no_quorum_iff[of blind_node 0 0]
      no_quorum_iff[of blind_node 0 "- 3"] no_quorum_iff[of tie_node 0 3]
      no_quorum_iff[of tie_node 0 2] c c2
    by simp
qed

text \<open>
  C6. For a fixed node and tick, no quorum at threshold \<open>k\<close> means no quorum at \<open>k + 1\<close>,
  and any two thresholds that give a result give the same result.
\<close>

theorem quorum_monotone:
  "(local_decision n t k = None \<longrightarrow> local_decision n t (k + 1) = None)
   \<and> (local_decision n t k1 = Some r1 \<and> local_decision n t k2 = Some r2 \<longrightarrow> r1 = r2)"
  using decide_mono[of "snapshot_of n t" k] decide_indep[of "snapshot_of n t" k1 r1 k2 r2]
  by (simp add: local_decision_eq)

theorem quorum_monotone_witness:
  "local_decision tie_node 0 3 = None \<and> local_decision tie_node 0 (3 + 1) = None
   \<and> local_decision tie_node 0 1 = Some (True, 1 / 2, 2, 3)
   \<and> local_decision tie_node 0 2 = Some (True, 1 / 2, 2, 3)"
proof -
  have a: "local_decision tie_node 0 3 = None"
    by (simp add: local_decision_eq tie_snapshot decide_def)
  have b: "local_decision tie_node 0 1 = Some (True, 1 / 2, 2, 3)"
    by (simp add: local_decision_eq tie_snapshot decide_def)
  have c: "local_decision tie_node 0 2 \<noteq> None"
    by (simp add: local_decision_eq tie_snapshot decide_def)
  then obtain r2 where r2: "local_decision tie_node 0 2 = Some r2" by blast
  show ?thesis
    using quorum_monotone[of tie_node 0 3 1 "(True, 1 / 2, 2, 3)" 2 r2] a b r2 by simp
qed

text \<open>
  C7. A snapshot of five entries, all valid, three of them present, decided with
  \<^verbatim>\<open>min_quorum = 1\<close>, gives majority true, ratio 0.6 and five contributors. In every
  result the total count is the sum of the counts of the valid entries, the ratio is
  \<open>present_count\<close> divided by the contributors, and the contributors are the valid
  entries. The value \<^verbatim>\<open>yes\<close> (the spec's \<open>present_count\<close>) is not a component of the tuple
  the code returns; it is the numerator of the ratio.
\<close>

theorem scenario_three_of_five:
  "(length (snapshot_of n t) = 5 \<and> contributors_of (snapshot_of n t) = 5
      \<and> present_count (snapshot_of n t) = 3 \<longrightarrow>
      local_decision n t 1 = Some (True, 0.6, 5, total_magnitude (snapshot_of n t)))
   \<and> (local_decision n t q = Some (maj, r, c, tc) \<longrightarrow>
        tc = total_magnitude (snapshot_of n t)
        \<and> r = real_of_int (present_count (snapshot_of n t))
                / real_of_int (contributors_of (snapshot_of n t))
        \<and> c = contributors_of (snapshot_of n t))"
  by (auto simp: local_decision_eq decide_eq split: if_splits)

theorem scenario_three_of_five_witness:
  "length (snapshot_of five_node 0) = 5 \<and> contributors_of (snapshot_of five_node 0) = 5
   \<and> present_count (snapshot_of five_node 0) = 3
   \<and> total_magnitude (snapshot_of five_node 0) = 7
   \<and> local_decision five_node 0 1 = Some (True, 0.6, 5, 7)"
proof -
  have a: "length (snapshot_of five_node 0) = 5" by (simp add: five_snapshot)
  have b: "contributors_of (snapshot_of five_node 0) = 5"
    by (simp add: five_snapshot contributors_of_def)
  have c: "present_count (snapshot_of five_node 0) = 3"
    by (simp add: five_snapshot present_count_def)
  have d: "total_magnitude (snapshot_of five_node 0) = 7"
    by (simp add: five_snapshot total_magnitude_def)
  show ?thesis
    using scenario_three_of_five[of five_node 0 1 True "0.6" 5 7] a b c d by simp
qed





lemma broken_node_eq:
  "broken_node =
     (Node 0 no_camera False)\<lparr>seen := {(0, 1)}, agg := [0 \<mapsto> [(1, True, 3, True)]]\<rparr>"
  by (simp add: broken_node_def broken_events_def eval_defs)


section \<open>The claims about gossip and the aggregate\<close>

lemma measure_twice_agg:
  "agg (fst (measure_cam cam (fst (measure_cam cam n t)) t)) = agg (fst (measure_cam cam n t))"
proof -
  let ?n1 = "fst (measure_cam cam n t)"
  have id: "node_id ?n1 = node_id n"
    by (simp add: measure_grab announce_frame grab_props)
  have "(t, node_id (fst (grab cam ?n1))) \<in> seen (fst (grab cam ?n1))"
    by (simp add: grab_props measure_seen id)
  then show ?thesis
    by (simp add: measure_grab[of cam ?n1 t] announce_old grab_props)
qed

text \<open>
  C2, for the camera programs. Processing an observation twice leaves the node exactly as
  processing it once does: the aggregate, the \<^verbatim>\<open>seen\<close> set and the outbox are the same,
  whatever the node's state. Measuring the same tick twice leaves the aggregate as
  measuring it once does. In every state reachable from \<^verbatim>\<open>Node.__init__\<close> no dict of the
  aggregate lists an originator twice. An accepted observation is the entry of its key
  from then on, and the entry of a key that is in \<^verbatim>\<open>seen\<close> is never changed by anything that
  arrives or is measured later.

  The numeric variant keeps a list of votes per number instead: \<^verbatim>\<open>process_messages\<close> appends
  the vote of every queued message for a number to that list, in arrival order.
\<close>

theorem merge_idempotent:
  "process_messages (receive (receive n m) m) = process_messages (receive n m)
   \<and> agg (fst (measure_cam cam (fst (measure_cam cam n t)) t)) = agg (fst (measure_cam cam n t))
   \<and> (agg (fst (run cam (Node i c opened) evs)) t = Some d \<longrightarrow> distinct (map fst d))
   \<and> (kind m = ''OBS'' \<and> key_of m \<notin> seen n \<longrightarrow>
        agg_get (agg (fst (run cam (fst (drain [m] n ob)) evs))) (tick m) (from_id m)
          = Some (entry_of m))
   \<and> ((t', f) \<in> seen n \<longrightarrow>
        agg_get (agg (fst (run cam n evs))) t' f = agg_get (agg n) t' f)
   \<and> known_numbers (simple_process_messages s) number =
       (if filter (\<lambda>(k, v). k = number) (s_inbox s) = [] then known_numbers s number
        else Some ((case known_numbers s number of None \<Rightarrow> [] | Some vs \<Rightarrow> vs)
                    @ map snd (filter (\<lambda>(k, v). k = number) (s_inbox s))))"
proof -
  have votes: "known_numbers (simple_process_messages s) number =
       (if filter (\<lambda>(k, v). k = number) (s_inbox s) = [] then known_numbers s number
        else Some ((case known_numbers s number of None \<Rightarrow> [] | Some vs \<Rightarrow> vs)
                    @ map snd (filter (\<lambda>(k, v). k = number) (s_inbox s))))"
    by (rule simple_process_messages_votes)
  have twice: "process_messages (receive (receive n m) m) = process_messages (receive n m)"
  proof -
    have "drain ((inbox n @ [m]) @ [m]) (n\<lparr>inbox := []\<rparr>) []
            = drain (inbox n @ [m]) (n\<lparr>inbox := []\<rparr>) []"
      by (rule drain_again) simp
    then show ?thesis by (simp add: process_messages_def receive_def)
  qed
  have own: "agg (fst (measure_cam cam (fst (measure_cam cam n t)) t))
               = agg (fst (measure_cam cam n t))"
    by (rule measure_twice_agg)
  have one: "agg (fst (run cam (Node i c opened) evs)) t = Some d \<longrightarrow> distinct (map fst d)"
  proof
    assume a: "agg (fst (run cam (Node i c opened) evs)) t = Some d"
    have "one_entry_per_key (fst (run cam (Node i c opened) evs))"
      by (rule one_entry_run[OF one_entry_Node])
    then show "distinct (map fst d)"
      using a unfolding one_entry_per_key_def by blast
  qed
  have first: "kind m = ''OBS'' \<and> key_of m \<notin> seen n \<longrightarrow>
        agg_get (agg (fst (run cam (fst (drain [m] n ob)) evs))) (tick m) (from_id m)
          = Some (entry_of m)"
  proof
    assume a: "kind m = ''OBS'' \<and> key_of m \<notin> seen n"
    then have d: "drain [m] n ob = (accept n m, ob @ [m])"
      using drain_accept[of m n "[]" ob] by simp
    have "(tick m, from_id m) \<in> seen (accept n m)"
      by (simp add: seen_accept key_of_def)
    from run_agg[OF this, of cam evs]
    show "agg_get (agg (fst (run cam (fst (drain [m] n ob)) evs))) (tick m) (from_id m)
            = Some (entry_of m)"
      by (simp add: d agg_accept key_of_def)
  qed
  have kept: "(t', f) \<in> seen n \<longrightarrow>
        agg_get (agg (fst (run cam n evs))) t' f = agg_get (agg n) t' f"
    using run_agg[of t' f n cam evs] by blast
  show ?thesis using twice own one first kept votes by blast
qed

text \<open>
  The claim as stated fails in the numeric variant, whose messages name no originator
  and whose \<^verbatim>\<open>process_messages\<close> appends every vote that arrives. Node 0 has voted on 42.
  The votes of two peers arrive as two equal messages \<^verbatim>\<open>(42, 1)\<close>. Draining both leaves
  three votes, draining one leaves two.
\<close>

theorem votes_appended_counterexample:
  "known_numbers (simple_process_messages (simple_receive (simple_receive voted_42 (42, 1)) (42, 1))) 42
     = Some [1, 1, 1]
   \<and> known_numbers (simple_process_messages (simple_receive voted_42 (42, 1))) 42 = Some [1, 1]
   \<and> simple_process_messages (simple_receive (simple_receive voted_42 (42, 1)) (42, 1))
       \<noteq> simple_process_messages (simple_receive voted_42 (42, 1))"
proof -
  have a: "known_numbers (simple_process_messages
             (simple_receive (simple_receive voted_42 (42, 1)) (42, 1))) 42 = Some [1, 1, 1]"
    by (simp add: simple_eval)
  have b: "known_numbers (simple_process_messages (simple_receive voted_42 (42, 1))) 42
             = Some [1, 1]"
    by (simp add: simple_eval)
  have "simple_process_messages (simple_receive (simple_receive voted_42 (42, 1)) (42, 1))
          \<noteq> simple_process_messages (simple_receive voted_42 (42, 1))"
  proof
    assume "simple_process_messages (simple_receive (simple_receive voted_42 (42, 1)) (42, 1))
              = simple_process_messages (simple_receive voted_42 (42, 1))"
    then have "known_numbers (simple_process_messages
                 (simple_receive (simple_receive voted_42 (42, 1)) (42, 1))) 42
               = known_numbers (simple_process_messages (simple_receive voted_42 (42, 1))) 42"
      by simp
    then show False by (simp only: a b) simp
  qed
  then show ?thesis using a b by simp
qed

theorem merge_idempotent_witness:
  "agg (fst (run one_person (Node 0 steady_camera True) five_events)) 0
     = Some [(0, True, 1, True), (1, True, 2, True), (2, False, 0, True), (3, True, 4, True),
             (4, False, 0, True)]
   \<and> distinct (map fst [(0::int, True, 1::int, True), (1, True, 2, True), (2, False, 0, True),
                          (3, True, 4, True), (4, False, 0, True)])
   \<and> key_of (obs 0 1 True 3 True) \<notin> seen (Node 0 no_camera False)
   \<and> agg_get (agg (fst (run one_person
                           (fst (drain [obs 0 1 True 3 True] (Node 0 no_camera False) []))
                           five_events)))
        0 1 = Some (True, 3, True)
   \<and> (0, 1) \<in> seen broken_node
   \<and> agg_get (agg (fst (run one_person broken_node five_events))) 0 1 = Some (True, 3, True)"
proof -
  have a: "agg (fst (run one_person (Node 0 steady_camera True) five_events)) 0
     = Some [(0, True, 1, True), (1, True, 2, True), (2, False, 0, True), (3, True, 4, True),
             (4, False, 0, True)]"
    using five_snapshot by (simp add: five_node_def five_events_def eval_defs)
  have k: "kind (obs 0 1 True 3 True) = ''OBS''
             \<and> key_of (obs 0 1 True 3 True) \<notin> seen (Node 0 no_camera False)"
    by (simp add: obs_def key_of_def Node_def)
  have s: "(0, 1) \<in> seen broken_node" by (simp add: broken_node_eq)
  have g: "agg_get (agg broken_node) 0 1 = Some (True, 3, True)"
    by (simp add: broken_node_eq agg_get_def)
  show ?thesis
    using merge_idempotent[where n = "Node 0 no_camera False" and m = "obs 0 1 True 3 True"
            and cam = one_person and i = 0 and c = steady_camera and opened = True
            and evs = five_events and t = 0
            and d = "[(0, True, 1, True), (1, True, 2, True), (2, False, 0, True),
                      (3, True, 4, True), (4, False, 0, True)]"
            and ob = "[]" and t' = 0 and f = 1, THEN conjunct2, THEN conjunct2]
          merge_idempotent[where n = broken_node and m = "obs 0 1 True 3 True"
            and cam = one_person and i = 0 and c = steady_camera and opened = True
            and evs = five_events and t = 0
            and d = "[(0, True, 1, True), (1, True, 2, True), (2, False, 0, True),
                      (3, True, 4, True), (4, False, 0, True)]"
            and ob = "[]" and t' = 0 and f = 1, THEN conjunct2, THEN conjunct2]
          a k s g
    by (simp add: obs_def entry_of_def)
qed

lemma filter_singleton:
  assumes "length (filter P xs) = 1" "x \<in> set xs" "P x"
  shows "filter P xs = [x]"
proof -
  obtain y where y: "filter P xs = [y]"
    using assms(1) by (cases "filter P xs") auto
  have "x \<in> set (filter P xs)" using assms(2,3) by simp
  then show ?thesis using y by simp
qed

text \<open>
  C1, for the camera programs. Take a node in any state and a key \<open>k\<close>.
  If \<open>k\<close> is not yet in the node's \<^verbatim>\<open>seen\<close> set, then draining the inbox records \<open>k\<close>, stores
  the entry of the first queued observation with key \<open>k\<close>, and puts exactly that one
  message with key \<open>k\<close> into the outbox, however many copies are queued.
  If \<open>k\<close> is already in \<^verbatim>\<open>seen\<close>, every queued message with key \<open>k\<close> is dropped: nothing with
  key \<open>k\<close> enters the outbox and the stored entry stays. This is also what happens to the
  first copy of the node's own observation that a peer sends back, since
  \<^verbatim>\<open>measure_and_broadcast\<close> has put the node's own key into \<^verbatim>\<open>seen\<close>.
  Over a whole run, from any state and for any order of events, the messages a node hands
  to \<^verbatim>\<open>gossip\<close> (its own observations and the ones it relays) have pairwise different keys.

  The numeric variant has no such test: its \<^verbatim>\<open>process_messages\<close> relays nothing and appends
  the vote of every queued message for a number to the list of that number.
\<close>

theorem rebroadcast_once:
  "(k \<notin> seen n \<and> find (\<lambda>x. kind x = ''OBS'' \<and> key_of x = k) (inbox n) = Some m \<longrightarrow>
      k \<in> seen (fst (process_messages n))
      \<and> agg_get (agg (fst (process_messages n))) (fst k) (snd k) = Some (entry_of m)
      \<and> filter (\<lambda>x. key_of x = k) (snd (process_messages n)) = [m])
   \<and> (k \<in> seen n \<longrightarrow>
        filter (\<lambda>x. key_of x = k) (snd (process_messages n)) = []
        \<and> agg_get (agg (fst (process_messages n))) (fst k) (snd k)
            = agg_get (agg n) (fst k) (snd k))
   \<and> distinct (map key_of (broadcasts (snd (run cam n evs))))
   \<and> known_numbers (simple_process_messages s) number =
       (if filter (\<lambda>(k, v). k = number) (s_inbox s) = [] then known_numbers s number
        else Some ((case known_numbers s number of None \<Rightarrow> [] | Some vs \<Rightarrow> vs)
                    @ map snd (filter (\<lambda>(k, v). k = number) (s_inbox s))))"
proof (intro conjI impI)
  assume a: "k \<notin> seen n \<and> find (\<lambda>x. kind x = ''OBS'' \<and> key_of x = k) (inbox n) = Some m"
  let ?n0 = "n\<lparr>inbox := []\<rparr>"
  have fresh: "k \<notin> seen ?n0" using a by simp
  have fnd: "find (\<lambda>x. kind x = ''OBS'' \<and> key_of x = k) (inbox n) = Some m" using a by simp
  then have m: "m \<in> set (inbox n)" "kind m = ''OBS''" "key_of m = k"
    by (auto simp: find_Some_iff)
  show "k \<in> seen (fst (process_messages n))"
    using m by (auto simp: process_messages_seen)
  show "agg_get (agg (fst (process_messages n))) (fst k) (snd k) = Some (entry_of m)"
    using outbox_first[OF fresh fnd, of "[]"] by (simp add: process_messages_def)
  have "length (filter (\<lambda>x. key_of x = k) (snd (drain (inbox n) ?n0 []))) = 1"
    using outbox_count[of k "inbox n" ?n0] m a by auto
  moreover have "m \<in> set (snd (drain (inbox n) ?n0 []))"
    using outbox_first[OF fresh fnd, of "[]"] by simp
  ultimately show "filter (\<lambda>x. key_of x = k) (snd (process_messages n)) = [m]"
    unfolding process_messages_def using m(3) by (intro filter_singleton) auto
next
  assume a: "k \<in> seen n"
  show "filter (\<lambda>x. key_of x = k) (snd (process_messages n)) = []"
    using process_messages_out(2)[of _ n] a by (auto simp: filter_empty_conv)
next
  assume a: "k \<in> seen n"
  then have "(fst k, snd k) \<in> seen n" by simp
  then show "agg_get (agg (fst (process_messages n))) (fst k) (snd k)
               = agg_get (agg n) (fst k) (snd k)"
    by (rule process_messages_agg)
next
  show "distinct (map key_of (broadcasts (snd (run cam n evs))))"
    using run_broadcast_once[of cam n evs] by simp
next
  show "known_numbers (simple_process_messages s) number =
       (if filter (\<lambda>(k, v). k = number) (s_inbox s) = [] then known_numbers s number
        else Some ((case known_numbers s number of None \<Rightarrow> [] | Some vs \<Rightarrow> vs)
                    @ map snd (filter (\<lambda>(k, v). k = number) (s_inbox s))))"
    by (rule simple_process_messages_votes)
qed

lemma after_first_measure:
  "net_measure one_person 0 0 two_nodes =
     [(connect (Node 0 steady_camera True) [0, 1])
        \<lparr>cap_pos := 1, seen := {(0, 0)}, agg := [0 \<mapsto> [(0, True, 1, True)]]\<rparr>,
      (connect (Node 1 steady_camera True) [0, 1])\<lparr>inbox := [obs 0 0 True 1 True]\<rparr>]"
  by (simp add: net_measure_def two_nodes_def gossip_def eval_defs)

lemma after_measuring_eq:
  "after_measuring =
     [(connect (Node 0 steady_camera True) [0, 1])
        \<lparr>cap_pos := 1, seen := {(0, 0)}, agg := [0 \<mapsto> [(0, True, 1, True)]],
         inbox := [obs 0 1 True 1 True]\<rparr>,
      (connect (Node 1 steady_camera True) [0, 1])
        \<lparr>cap_pos := 1, seen := {(0, 1)}, agg := [0 \<mapsto> [(1, True, 1, True)]],
         inbox := [obs 0 0 True 1 True]\<rparr>]"
  unfolding after_measuring_def after_first_measure
  by (simp add: net_measure_def gossip_def eval_defs)

lemma node1_before_first_drain:
  "net_process 0 after_measuring ! 1 =
     (connect (Node 1 steady_camera True) [0, 1])
        \<lparr>cap_pos := 1, seen := {(0, 1)}, agg := [0 \<mapsto> [(1, True, 1, True)]],
         inbox := [obs 0 0 True 1 True, obs 0 1 True 1 True]\<rparr>"
  unfolding after_measuring_eq
  by (simp add: net_process_def gossip_def eval_defs)

text \<open>
  The claim as stated fails for a node's own key. Two fully connected nodes measure tick
  0, then node 0 drains its inbox and relays node 1's observation to node 1. Node 1 has
  not drained anything yet. Its queue now holds, for the first time, a message with key
  \<open>(0, 1)\<close>. Draining the queue drops that message: the outbox holds only node 0's
  observation.
  It also fails in the numeric variant, which has no \<^verbatim>\<open>seen\<close> set and relays nothing: a
  second arrival of an equal message is stored like the first.
\<close>

theorem own_echo_dropped_counterexample:
  "inbox (net_process 0 after_measuring ! 1) = [obs 0 0 True 1 True, obs 0 1 True 1 True]
   \<and> key_of (obs 0 1 True 1 True) = (0, 1)
   \<and> node_id (net_process 0 after_measuring ! 1) = 1
   \<and> snd (process_messages (net_process 0 after_measuring ! 1)) = [obs 0 0 True 1 True]
   \<and> known_numbers (simple_process_messages
         (simple_receive (simple_receive (simple_Node 0) (42, 1)) (42, 1))) 42 = Some [1, 1]"
  unfolding node1_before_first_drain
  by (simp add: eval_defs simple_eval)

theorem rebroadcast_once_witness:
  "(0, 0) \<notin> seen (net_process 0 after_measuring ! 1)
   \<and> find (\<lambda>x. kind x = ''OBS'' \<and> key_of x = (0, 0)) (inbox (net_process 0 after_measuring ! 1))
        = Some (obs 0 0 True 1 True)
   \<and> (0, 0) \<in> seen (fst (process_messages (net_process 0 after_measuring ! 1)))
   \<and> agg_get (agg (fst (process_messages (net_process 0 after_measuring ! 1)))) 0 0
        = Some (True, 1, True)
   \<and> filter (\<lambda>x. key_of x = (0, 0)) (snd (process_messages (net_process 0 after_measuring ! 1)))
        = [obs 0 0 True 1 True]
   \<and> (0, 1) \<in> seen (net_process 0 after_measuring ! 1)
   \<and> filter (\<lambda>x. key_of x = (0, 1)) (snd (process_messages (net_process 0 after_measuring ! 1)))
        = []
   \<and> distinct (map key_of (broadcasts (snd (run one_person (Node 0 steady_camera True)
                                               (five_events @ five_events)))))"
proof -
  let ?n = "net_process 0 after_measuring ! 1"
  have a: "(0, 0) \<notin> seen ?n"
    unfolding node1_before_first_drain by (simp add: connect_def Node_def)
  have b: "find (\<lambda>x. kind x = ''OBS'' \<and> key_of x = (0, 0)) (inbox ?n) = Some (obs 0 0 True 1 True)"
    unfolding node1_before_first_drain by (simp add: connect_def Node_def obs_def key_of_def)
  have c: "(0, 1) \<in> seen ?n"
    unfolding node1_before_first_drain by (simp add: connect_def Node_def)
  show ?thesis
    using rebroadcast_once[of "(0, 0)" ?n "obs 0 0 True 1 True" one_person
            "five_events @ five_events"]
          rebroadcast_once[of "(0, 1)" ?n "obs 0 0 True 1 True" one_person
            "five_events @ five_events"]
          rebroadcast_once[of "(0, 0)" "Node 0 steady_camera True" "obs 0 0 True 1 True" one_person
            "five_events @ five_events"]
          a b c
    by (simp add: entry_of_def obs_def)
qed

section \<open>The claims about a failing camera\<close>

text \<open>
  C9. When the measurement source gives no reading (the \<^verbatim>\<open>ok\<close> flag is off, or the one
  \<^verbatim>\<open>cap.read()\<close> of the tick fails), \<^verbatim>\<open>measure_and_broadcast\<close> of either camera program
  returns normally: its source has no raise on this path and the model has no error
  value. It makes at most one read, so it does not retry. It goes on through the same
  \<^verbatim>\<open>seen\<close> test and gossip call as a valid observation (\<open>announce\<close>), with
  \<^verbatim>\<open>valid = False\<close>, \<^verbatim>\<open>present = False\<close> and the count left at 0. So the observation is
  handed to \<^verbatim>\<open>gossip\<close> when the key \<^verbatim>\<open>(tick, node_id)\<close> is new, and it is stored under that key.

  In the network, that call of \<^verbatim>\<open>measure_and_broadcast\<close> delivers the invalid observation:
  every node with another \<^verbatim>\<open>node_id\<close> finds it at the end of its inbox once for each time it
  is listed among the sender's peers, so every such peer has it in its inbox; the
  sender's own inbox is untouched, and the sender's state in the network is the one
  \<^verbatim>\<open>measure_and_broadcast\<close> returns. Whatever the observation, valid or not, the deliveries are
  those of the messages \<^verbatim>\<open>measure_and_broadcast\<close> hands to \<^verbatim>\<open>gossip\<close>.
\<close>

theorem failed_reading:
  "(read_fails n \<longrightarrow>
     measure_cam cam n t =
       announce (if ok n then n\<lparr>cap_pos := Suc (cap_pos n), ok := False\<rparr> else n) t False 0 False
     \<and> cap_pos (fst (measure_cam cam n t)) \<le> Suc (cap_pos n)
     \<and> snd (measure_cam cam n t) =
         (if (t, node_id n) \<in> seen n then [] else [obs t (node_id n) False 0 False])
     \<and> ((t, node_id n) \<notin> seen n \<longrightarrow>
          agg_get (agg (fst (measure_cam cam n t))) t (node_id n) = Some (False, 0, False)))
   \<and> (i < length net \<and> read_fails (net ! i) \<and> (t, node_id (net ! i)) \<notin> seen (net ! i)
        \<and> p < length net \<and> node_id (net ! p) \<noteq> node_id (net ! i) \<longrightarrow>
        inbox (net_measure cam i t net ! p)
          = inbox (net ! p)
              @ replicate (count_list (peers (net ! i)) p) (obs t (node_id (net ! i)) False 0 False)
        \<and> (p \<in> set (peers (net ! i)) \<longrightarrow>
             obs t (node_id (net ! i)) False 0 False \<in> set (inbox (net_measure cam i t net ! p))))
   \<and> (i < length net \<longrightarrow>
        net_measure cam i t net ! i = fst (measure_cam cam (net ! i) t)
        \<and> inbox (net_measure cam i t net ! i) = inbox (net ! i))
   \<and> (i < length net \<and> p < length net \<and> node_id (net ! p) \<noteq> node_id (net ! i) \<longrightarrow>
        inbox (net_measure cam i t net ! p)
          = inbox (net ! p)
              @ concat (map (replicate (count_list (peers (net ! i)) p))
                          (snd (measure_cam cam (net ! i) t))))"
proof -
  have node: "read_fails n \<longrightarrow>
     measure_cam cam n t =
       announce (if ok n then n\<lparr>cap_pos := Suc (cap_pos n), ok := False\<rparr> else n) t False 0 False
     \<and> cap_pos (fst (measure_cam cam n t)) \<le> Suc (cap_pos n)
     \<and> snd (measure_cam cam n t) =
         (if (t, node_id n) \<in> seen n then [] else [obs t (node_id n) False 0 False])
     \<and> ((t, node_id n) \<notin> seen n \<longrightarrow>
          agg_get (agg (fst (measure_cam cam n t))) t (node_id n) = Some (False, 0, False))"
  proof
    assume rf: "read_fails n"
    let ?n1 = "if ok n then n\<lparr>cap_pos := Suc (cap_pos n), ok := False\<rparr> else n"
    have m: "measure_cam cam n t = announce ?n1 t False 0 False"
      using rf by (rule measure_read_fails)
    have pos: "cap_pos (fst (measure_cam cam n t)) \<le> Suc (cap_pos n)"
      by (simp add: m announce_frame)
    have out: "snd (measure_cam cam n t) =
           (if (t, node_id n) \<in> seen n then [] else [obs t (node_id n) False 0 False])"
      unfolding m by (simp add: announce_def Let_def)
    have st: "(t, node_id n) \<notin> seen n \<longrightarrow>
            agg_get (agg (fst (measure_cam cam n t))) t (node_id n) = Some (False, 0, False)"
      unfolding m by (simp add: announce_def Let_def agg_get_put)
    show "measure_cam cam n t = announce ?n1 t False 0 False
       \<and> cap_pos (fst (measure_cam cam n t)) \<le> Suc (cap_pos n)
       \<and> snd (measure_cam cam n t) =
           (if (t, node_id n) \<in> seen n then [] else [obs t (node_id n) False 0 False])
       \<and> ((t, node_id n) \<notin> seen n \<longrightarrow>
            agg_get (agg (fst (measure_cam cam n t))) t (node_id n) = Some (False, 0, False))"
      using m pos out st by blast
  qed
  have delivered: "i < length net \<and> read_fails (net ! i) \<and> (t, node_id (net ! i)) \<notin> seen (net ! i)
        \<and> p < length net \<and> node_id (net ! p) \<noteq> node_id (net ! i) \<longrightarrow>
        inbox (net_measure cam i t net ! p)
          = inbox (net ! p)
              @ replicate (count_list (peers (net ! i)) p) (obs t (node_id (net ! i)) False 0 False)
        \<and> (p \<in> set (peers (net ! i)) \<longrightarrow>
             obs t (node_id (net ! i)) False 0 False \<in> set (inbox (net_measure cam i t net ! p)))"
  proof
    assume a: "i < length net \<and> read_fails (net ! i) \<and> (t, node_id (net ! i)) \<notin> seen (net ! i)
        \<and> p < length net \<and> node_id (net ! p) \<noteq> node_id (net ! i)"
    let ?n1 = "if ok (net ! i) then (net ! i)\<lparr>cap_pos := Suc (cap_pos (net ! i)), ok := False\<rparr>
               else net ! i"
    have "measure_cam cam (net ! i) t = announce ?n1 t False 0 False"
      using a by (intro measure_read_fails) simp
    then have out: "snd (measure_cam cam (net ! i) t) = [obs t (node_id (net ! i)) False 0 False]"
      using a by (simp add: announce_def Let_def)
    have inb: "inbox (net_measure cam i t net ! p)
          = inbox (net ! p)
              @ replicate (count_list (peers (net ! i)) p) (obs t (node_id (net ! i)) False 0 False)"
      using net_measure_inbox[of i net p cam t] a by (simp add: out)
    have "p \<in> set (peers (net ! i)) \<longrightarrow>
             obs t (node_id (net ! i)) False 0 False \<in> set (inbox (net_measure cam i t net ! p))"
    proof
      assume "p \<in> set (peers (net ! i))"
      then have "count_list (peers (net ! i)) p \<noteq> 0" by (simp add: count_list_0_iff)
      then have "0 < count_list (peers (net ! i)) p" by arith
      then show "obs t (node_id (net ! i)) False 0 False
                   \<in> set (inbox (net_measure cam i t net ! p))"
        by (simp add: inb)
    qed
    then show "inbox (net_measure cam i t net ! p)
          = inbox (net ! p)
              @ replicate (count_list (peers (net ! i)) p) (obs t (node_id (net ! i)) False 0 False)
        \<and> (p \<in> set (peers (net ! i)) \<longrightarrow>
             obs t (node_id (net ! i)) False 0 False \<in> set (inbox (net_measure cam i t net ! p)))"
      using inb by blast
  qed
  have sender: "i < length net \<longrightarrow>
        net_measure cam i t net ! i = fst (measure_cam cam (net ! i) t)
        \<and> inbox (net_measure cam i t net ! i) = inbox (net ! i)"
    using net_measure_self[of i net cam t] by (auto simp: measure_keeps)
  have any: "i < length net \<and> p < length net \<and> node_id (net ! p) \<noteq> node_id (net ! i) \<longrightarrow>
        inbox (net_measure cam i t net ! p)
          = inbox (net ! p)
              @ concat (map (replicate (count_list (peers (net ! i)) p))
                          (snd (measure_cam cam (net ! i) t)))"
    using net_measure_inbox[of i net p cam t] by simp
  show ?thesis using node delivered sender any by blast
qed

lemma flaky_node_eq:
  "flaky_node =
     (Node 0 flaky_camera True)
       \<lparr>cap_pos := 2, seen := {(0, 0), (1, 0)},
        agg := [0 \<mapsto> [(0, True, 1, True)], 1 \<mapsto> [(0, True, 1, True)]]\<rparr>"
  by (auto simp: flaky_node_def eval_defs)

theorem failed_reading_witness:
  "read_fails flaky_node
   \<and> cap_pos flaky_node = 2
   \<and> cap_pos (fst (measure_cam one_person flaky_node 2)) \<le> 3
   \<and> snd (measure_cam one_person flaky_node 2) = [obs 2 0 False 0 False]
   \<and> agg_get (agg (fst (measure_cam one_person flaky_node 2))) 2 0 = Some (False, 0, False)
   \<and> read_fails broken_node
   \<and> snd (measure_cam (MotionCam (\<lambda>a b. 9000)) broken_node 5) = [obs 5 0 False 0 False]
   \<and> read_fails (broken_pair ! 0)
   \<and> inbox (net_measure one_person 0 5 broken_pair ! 1) = [obs 5 0 False 0 False]
   \<and> obs 5 0 False 0 False \<in> set (inbox (net_measure one_person 0 5 broken_pair ! 1))
   \<and> inbox (net_measure one_person 0 5 broken_pair ! 0) = []
   \<and> inbox (net_measure one_person 1 5 broken_pair ! 0) = [obs 5 1 True 1 True]"
proof -
  have rf: "read_fails flaky_node"
    by (simp add: flaky_node_eq read_fails_def Node_def flaky_camera_def)
  have rb: "read_fails broken_node"
    by (simp add: broken_node_eq read_fails_def Node_def)
  have f: "cap_pos flaky_node = 2" "node_id flaky_node = 0" "(2, 0) \<notin> seen flaky_node"
    by (simp_all add: flaky_node_eq Node_def)
  have b: "node_id broken_node = 0" "(5, 0) \<notin> seen broken_node"
    by (simp_all add: broken_node_eq Node_def)
  have n0: "broken_pair ! 0 = connect (Node 0 no_camera False) [0, 1]"
    and n1: "broken_pair ! 1 = connect (Node 1 steady_camera True) [0, 1]"
    and n1': "broken_pair ! Suc 0 = connect (Node 1 steady_camera True) [0, 1]"
    and len: "length broken_pair = 2"
    by (simp_all add: broken_pair_def)
  have rp: "read_fails (broken_pair ! 0)"
    by (simp add: n0 read_fails_def connect_def Node_def)
  have h0: "(0::nat) < length broken_pair \<and> read_fails (broken_pair ! 0)
              \<and> (5, node_id (broken_pair ! 0)) \<notin> seen (broken_pair ! 0)
              \<and> (1::nat) < length broken_pair
              \<and> node_id (broken_pair ! 1) \<noteq> node_id (broken_pair ! 0)"
    using rp by (simp add: len n0 n1' connect_def Node_def)
  have m1: "snd (measure_cam one_person (connect (Node 1 steady_camera True) [0, 1]) 5)
              = [obs 5 1 True 1 True]"
    by (simp add: eval_defs)
  have h1: "(1::nat) < length broken_pair \<and> (0::nat) < length broken_pair
              \<and> node_id (broken_pair ! 0) \<noteq> node_id (broken_pair ! 1)"
    by (simp add: len n0 n1' connect_def Node_def)
  have h2: "(0::nat) < length broken_pair"
    by (simp add: len)
  note w1 = failed_reading[of flaky_node one_person 2, THEN conjunct1, rule_format, OF rf,
              THEN conjunct2]
  note w2 = failed_reading[of broken_node "MotionCam (\<lambda>a b. 9000)" 5, THEN conjunct1,
              rule_format, OF rb, THEN conjunct2]
  note w3 = failed_reading[of _ one_person 5 0 broken_pair 1, THEN conjunct2, THEN conjunct1,
              rule_format, OF h0]
  note w4 = failed_reading[of _ one_person 5 0 broken_pair 1, THEN conjunct2, THEN conjunct2,
              THEN conjunct1, rule_format, OF h2, THEN conjunct2]
  note w5 = failed_reading[of _ one_person 5 1 broken_pair 0, THEN conjunct2, THEN conjunct2,
              THEN conjunct2, rule_format, OF h1]
  have d1: "inbox (net_measure one_person 0 5 broken_pair ! 1) = [obs 5 0 False 0 False]"
    using w3 by (simp add: n0 n1' connect_def Node_def)
  have d2: "inbox (net_measure one_person 0 5 broken_pair ! 0) = []"
    using w4 by (simp add: n0 connect_def Node_def)
  have d3: "inbox (net_measure one_person 1 5 broken_pair ! 0) = [obs 5 1 True 1 True]"
    using w5 unfolding n0 n1 n1' m1 by (simp add: connect_def Node_def)
  show ?thesis
    using w1 w2 rf rb rp f b d1 d2 d3 by simp
qed

text \<open>
  C10. In both camera programs a failed read turns the \<^verbatim>\<open>ok\<close> flag off, and nothing turns
  it on again: from a state with the flag off, every run leaves it off, whatever the
  camera would deliver and whatever messages arrive. Every observation of its own that
  the node broadcasts in such a run (the messages sent by \<^verbatim>\<open>measure_and_broadcast\<close>) has
  \<^verbatim>\<open>valid = False\<close>. The observations of other nodes that it relays keep their flags.
\<close>

theorem failure_persists:
  "(read_fails n \<longrightarrow> \<not> ok (fst (measure_cam cam n t)))
   \<and> (\<not> ok n \<longrightarrow>
        \<not> ok (fst (run cam n evs))
        \<and> (\<forall>m \<in> set (own_observations (snd (run cam n evs))). \<not> valid m))"
proof (intro conjI impI ballI)
  assume "read_fails n"
  then show "\<not> ok (fst (measure_cam cam n t))"
    by (simp add: measure_read_fails announce_frame)
next
  assume "\<not> ok n"
  then show "\<not> ok (fst (run cam n evs))" by (rule run_ok)
next
  fix m
  assume "\<not> ok n" "m \<in> set (own_observations (snd (run cam n evs)))"
  then show "\<not> valid m" by (rule own_observations_invalid)
qed

theorem failure_persists_witness:
  "read_fails flaky_node
   \<and> flaky_camera 3 = (True, Some 3)
   \<and> \<not> ok (fst (measure_cam one_person flaky_node 2))
   \<and> \<not> ok (fst (run one_person (fst (measure_cam one_person flaky_node 2)) later_events))
   \<and> own_observations (snd (run one_person (fst (measure_cam one_person flaky_node 2)) later_events))
        = [obs 3 0 False 0 False, obs 4 0 False 0 False]
   \<and> broadcasts (snd (run one_person (fst (measure_cam one_person flaky_node 2)) later_events))
        = [obs 3 0 False 0 False, obs 3 1 True 2 True, obs 4 0 False 0 False]"
proof -
  have rf: "read_fails flaky_node"
    by (simp add: flaky_node_eq read_fails_def Node_def flaky_camera_def)
  have m: "fst (measure_cam one_person flaky_node 2) =
     (Node 0 flaky_camera True)
       \<lparr>cap_pos := 3, ok := False, seen := {(0, 0), (1, 0), (2, 0)},
        agg := [0 \<mapsto> [(0, True, 1, True)], 1 \<mapsto> [(0, True, 1, True)],
                2 \<mapsto> [(0, False, 0, False)]]\<rparr>"
    unfolding flaky_node_eq by (auto simp: eval_defs)
  have tr: "snd (run one_person (fst (measure_cam one_person flaky_node 2)) later_events) =
     [(Measure 3, obs 3 0 False 0 False), (Process, obs 3 1 True 2 True),
      (Measure 4, obs 4 0 False 0 False)]"
    unfolding m by (simp add: later_events_def eval_defs)
  have nok: "\<not> ok (fst (measure_cam one_person flaky_node 2))"
    using failure_persists[of flaky_node one_person 2] rf by simp
  show ?thesis
    using failure_persists[of "fst (measure_cam one_person flaky_node 2)" one_person 0 later_events]
      rf nok tr
    by (simp add: own_observations_def broadcasts_def flaky_camera_def)
qed

section \<open>The claim about the keyword search variant\<close>

lemma handle_all_Cons:
  "handle_all (m # ms) n =
     (fst (handle_all ms (fst (handle n m))),
      map (Pair m) (snd (handle n m)) @ snd (handle_all ms (fst (handle n m))))"
  by (simp add: split_def Let_def)

lemma search_run_Cons:
  "search_run n (e # es) =
     (fst (search_run (fst (search_step n e)) es),
      snd (search_step n e) @ snd (search_run (fst (search_step n e)) es))"
  by (simp add: split_def Let_def)

lemma map_filter_append: "List.map_filter g (xs @ ys) = List.map_filter g xs @ List.map_filter g ys"
  by (simp add: List.map_filter_def)

lemma handle_query_new:
  "q \<notin> seen_queries n \<Longrightarrow>
     snd (handle_query n q term) =
       [RESULT q (q_node_id n) (fst (local_keyword_stats n term)) (snd (local_keyword_stats n term)),
        QUERY q term]"
  by (simp add: handle_query_def Let_def split_def local_keyword_stats_def)

lemma handle_mono:
  "seen_queries n \<subseteq> seen_queries (fst (handle n m))"
  "rebroadcasted_results n \<subseteq> rebroadcasted_results (fst (handle n m))"
  by (cases m; auto simp: handle_query_def handle_result_def Let_def split_def)+

lemma handle_forwards:
  "distinct (query_forwards (map (Pair m) (snd (handle n m))))"
  "q \<in> set (query_forwards (map (Pair m) (snd (handle n m)))) \<Longrightarrow>
     q \<notin> seen_queries n \<and> q \<in> seen_queries (fst (handle n m))"
  by (cases m; auto simp: handle_query_def handle_result_def Let_def split_def query_forwards_def
        List.map_filter_simps split: if_splits)+

lemma handle_relays:
  "distinct (result_relays (map (Pair m) (snd (handle n m))))"
  "k \<in> set (result_relays (map (Pair m) (snd (handle n m)))) \<Longrightarrow>
     k \<notin> rebroadcasted_results n \<and> k \<in> rebroadcasted_results (fst (handle n m))"
  by (cases m; auto simp: handle_query_def handle_result_def Let_def split_def result_relays_def
        List.map_filter_simps split: if_splits)+

declare handle_all.simps(2) [simp del]
declare search_run.simps(2) [simp del]

lemma distinct_append_fresh:
  assumes "distinct xs" "distinct ys" "\<And>x. x \<in> set xs \<Longrightarrow> x \<in> S" "\<And>y. y \<in> set ys \<Longrightarrow> y \<notin> S"
  shows "distinct (xs @ ys)"
  using assms by auto

lemma handle_all_once:
  "distinct (query_forwards (snd (handle_all ms n)))
   \<and> (\<forall>q \<in> set (query_forwards (snd (handle_all ms n))). q \<notin> seen_queries n)
   \<and> distinct (result_relays (snd (handle_all ms n)))
   \<and> (\<forall>k \<in> set (result_relays (snd (handle_all ms n))). k \<notin> rebroadcasted_results n)
   \<and> seen_queries n \<subseteq> seen_queries (fst (handle_all ms n))
   \<and> rebroadcasted_results n \<subseteq> rebroadcasted_results (fst (handle_all ms n))
   \<and> set (query_forwards (snd (handle_all ms n))) \<subseteq> seen_queries (fst (handle_all ms n))
   \<and> set (result_relays (snd (handle_all ms n))) \<subseteq> rebroadcasted_results (fst (handle_all ms n))"
proof (induction ms arbitrary: n)
  case Nil
  then show ?case by (simp add: query_forwards_def result_relays_def List.map_filter_simps)
next
  case (Cons m ms)
  define n1 where "n1 = fst (handle n m)"
  define tr1 where "tr1 = map (Pair m) (snd (handle n m))"
  define tr2 where "tr2 = snd (handle_all ms n1)"
  have tr: "snd (handle_all (m # ms) n) = tr1 @ tr2"
    and st: "fst (handle_all (m # ms) n) = fst (handle_all ms n1)"
    by (simp_all add: handle_all_Cons n1_def tr1_def tr2_def)
  note IH = Cons.IH[of n1, folded tr2_def]
  have q1: "distinct (query_forwards tr1)"
    and q1s: "\<And>q. q \<in> set (query_forwards tr1) \<Longrightarrow> q \<notin> seen_queries n \<and> q \<in> seen_queries n1"
    and r1: "distinct (result_relays tr1)"
    and r1s: "\<And>k. k \<in> set (result_relays tr1) \<Longrightarrow>
                k \<notin> rebroadcasted_results n \<and> k \<in> rebroadcasted_results n1"
    unfolding tr1_def n1_def
    using handle_forwards[where m = m and n = n] handle_relays[where m = m and n = n] by blast+
  have m1: "seen_queries n \<subseteq> seen_queries n1" "rebroadcasted_results n \<subseteq> rebroadcasted_results n1"
    unfolding n1_def by (rule handle_mono)+
  have "distinct (query_forwards tr1 @ query_forwards tr2)"
    using q1 IH q1s by (intro distinct_append_fresh[where S = "seen_queries n1"]) auto
  moreover have "distinct (result_relays tr1 @ result_relays tr2)"
    using r1 IH r1s by (intro distinct_append_fresh[where S = "rebroadcasted_results n1"]) auto
  moreover have "\<forall>q \<in> set (query_forwards tr1 @ query_forwards tr2). q \<notin> seen_queries n"
    using q1s IH m1 by auto
  moreover have "\<forall>k \<in> set (result_relays tr1 @ result_relays tr2). k \<notin> rebroadcasted_results n"
    using r1s IH m1 by auto
  moreover have "seen_queries n \<subseteq> seen_queries (fst (handle_all ms n1))"
    "rebroadcasted_results n \<subseteq> rebroadcasted_results (fst (handle_all ms n1))"
    using IH m1 by auto
  moreover have "set (query_forwards tr1 @ query_forwards tr2) \<subseteq> seen_queries (fst (handle_all ms n1))"
    using q1s IH by auto
  moreover have "set (result_relays tr1 @ result_relays tr2)
                   \<subseteq> rebroadcasted_results (fst (handle_all ms n1))"
    using r1s IH by auto
  ultimately show ?case
    unfolding tr st by (simp add: query_forwards_def result_relays_def map_filter_append)
qed


lemma search_step_once:
  "distinct (query_forwards (snd (search_step n e)))
   \<and> (\<forall>q \<in> set (query_forwards (snd (search_step n e))). q \<notin> seen_queries n)
   \<and> distinct (result_relays (snd (search_step n e)))
   \<and> (\<forall>k \<in> set (result_relays (snd (search_step n e))). k \<notin> rebroadcasted_results n)
   \<and> seen_queries n \<subseteq> seen_queries (fst (search_step n e))
   \<and> rebroadcasted_results n \<subseteq> rebroadcasted_results (fst (search_step n e))
   \<and> set (query_forwards (snd (search_step n e))) \<subseteq> seen_queries (fst (search_step n e))
   \<and> set (result_relays (snd (search_step n e))) \<subseteq> rebroadcasted_results (fst (search_step n e))"
proof (cases e)
  case (Arrive m)
  then show ?thesis
    by (simp add: search_receive_def query_forwards_def result_relays_def List.map_filter_simps)
next
  case Drain
  show ?thesis
    using handle_all_once[of "q_inbox n" "n\<lparr>q_inbox := []\<rparr>"]
    by (simp add: Drain search_process_messages_def)
qed

lemma search_run_once:
  "distinct (query_forwards (snd (search_run n evs)))
   \<and> (\<forall>q \<in> set (query_forwards (snd (search_run n evs))). q \<notin> seen_queries n)
   \<and> distinct (result_relays (snd (search_run n evs)))
   \<and> (\<forall>k \<in> set (result_relays (snd (search_run n evs))). k \<notin> rebroadcasted_results n)"
proof (induction evs arbitrary: n)
  case Nil
  then show ?case by (simp add: query_forwards_def result_relays_def List.map_filter_simps)
next
  case (Cons e es)
  define n1 where "n1 = fst (search_step n e)"
  define tr1 where "tr1 = snd (search_step n e)"
  define tr2 where "tr2 = snd (search_run n1 es)"
  have tr: "snd (search_run n (e # es)) = tr1 @ tr2"
    by (simp add: search_run_Cons n1_def tr1_def tr2_def)
  note IH = Cons.IH[of n1, folded tr2_def]
  note S = search_step_once[of n e, folded n1_def tr1_def]
  have "distinct (query_forwards tr1 @ query_forwards tr2)"
    using S IH by (intro distinct_append_fresh[where S = "seen_queries n1"]) auto
  moreover have "distinct (result_relays tr1 @ result_relays tr2)"
    using S IH by (intro distinct_append_fresh[where S = "rebroadcasted_results n1"]) auto
  moreover have "\<forall>q \<in> set (query_forwards tr1 @ query_forwards tr2). q \<notin> seen_queries n"
    using S IH by auto
  moreover have "\<forall>k \<in> set (result_relays tr1 @ result_relays tr2). k \<notin> rebroadcasted_results n"
    using S IH by auto
  ultimately show ?case
    unfolding tr by (simp add: query_forwards_def result_relays_def map_filter_append)
qed

text \<open>
  C8. In every run of a search node, from any state and for any arrivals, the queries it
  forwards have pairwise different query ids, and the results it relays while handling
  a \<^verbatim>\<open>RESULT\<close> have pairwise different pairs of query id and contributor. A query met for the
  first time is forwarded with its id and term whatever the node's own statistics are,
  after the node's own result; a query met again sends nothing.
\<close>

theorem search_once:
  "distinct (query_forwards (snd (search_run n evs)))
   \<and> distinct (result_relays (snd (search_run n evs)))
   \<and> (q \<notin> seen_queries n \<longrightarrow>
        snd (handle_query n q term) =
          [RESULT q (q_node_id n) (fst (local_keyword_stats n term))
             (snd (local_keyword_stats n term)),
           QUERY q term])
   \<and> (q \<in> seen_queries n \<longrightarrow> snd (handle_query n q term) = [])"
proof (intro conjI impI)
  show "distinct (query_forwards (snd (search_run n evs)))"
    using search_run_once[of n evs] by simp
  show "distinct (result_relays (snd (search_run n evs)))"
    using search_run_once[of n evs] by simp
next
  assume "q \<notin> seen_queries n"
  then show "snd (handle_query n q term) =
          [RESULT q (q_node_id n) (fst (local_keyword_stats n term))
             (snd (local_keyword_stats n term)),
           QUERY q term]"
    by (rule handle_query_new)
next
  assume "q \<in> seen_queries n"
  then show "snd (handle_query n q term) = []" by (simp add: handle_query_def)
qed

lemmas search_eval =
  search_example_def search_events_def search_Node_def search_receive_def
  search_process_messages_def search_run.simps handle_all.simps handle_query_def
  handle_result_def local_keyword_stats_def tally_def aggregate_of_def new_aggregate_def
  Let_def split_def

lemma search_trace:
  "snd (search_run search_example search_events) =
     [(QUERY ''q1'' ''gossip'', RESULT ''q1'' 2 1 2),
      (QUERY ''q1'' ''gossip'', QUERY ''q1'' ''gossip''),
      (RESULT ''q1'' 1 1 4, RESULT ''q1'' 1 1 4),
      (RESULT ''q1'' 3 0 0, RESULT ''q1'' 3 0 0)]"
  by (simp add: search_eval)

theorem search_once_witness:
  "query_forwards (snd (search_run search_example search_events)) = [''q1'']
   \<and> result_relays (snd (search_run search_example search_events)) = [(''q1'', 1), (''q1'', 3)]
   \<and> ''q1'' \<notin> seen_queries search_example
   \<and> snd (handle_query search_example ''q1'' ''gossip'')
        = [RESULT ''q1'' 2 1 2, QUERY ''q1'' ''gossip'']
   \<and> snd (handle_query search_example ''q1'' ''paxos'')
        = [RESULT ''q1'' 2 0 0, QUERY ''q1'' ''paxos'']
   \<and> ''q1'' \<in> seen_queries (fst (handle_query search_example ''q1'' ''gossip''))
   \<and> snd (handle_query (fst (handle_query search_example ''q1'' ''gossip'')) ''q1'' ''gossip'') = []"
proof -
  have a: "''q1'' \<notin> seen_queries search_example"
    by (simp add: search_example_def search_Node_def)
  have b: "''q1'' \<in> seen_queries (fst (handle_query search_example ''q1'' ''gossip''))"
    by (simp add: search_eval)
  have s1: "local_keyword_stats search_example ''gossip'' = (1, 2)"
    by (simp add: search_eval)
  have s2: "local_keyword_stats search_example ''paxos'' = (0, 0)"
    by (simp add: search_eval)
  have i: "q_node_id search_example = 2" by (simp add: search_eval)
  show ?thesis
    using search_once[of search_example search_events "''q1''" "''gossip''"]
          search_once[of search_example search_events "''q1''" "''paxos''"]
          search_once[of "fst (handle_query search_example ''q1'' ''gossip'')" search_events
            "''q1''" "''gossip''"]
          a b s1 s2 i
    by (simp add: search_trace query_forwards_def result_relays_def List.map_filter_simps)
qed

end
